theory Spec2Isabelle
  imports Main "HOL-Library.Sublist"
begin

section \<open>JavaScript strings\<close>

text \<open>
  A JavaScript string is modelled as a \<^typ>\<open>string\<close>: one \<^typ>\<open>char\<close> per UTF-16 code unit,
  for the code units below 256. \<open>length\<close> is \<open>.length\<close>, \<open>@\<close> is concatenation and a
  template literal, \<open>take\<close>/\<open>drop\<close> are slices.
\<close>

definition isLineTerminator :: "char \<Rightarrow> bool" where
  \<comment> \<open>the characters the regular expression atom \<open>.\<close> does not match\<close>
  "isLineTerminator c = (c = CHR 0x0A \<or> c = CHR 0x0D)"

definition isWhiteSpace :: "char \<Rightarrow> bool" where
  \<comment> \<open>what \<open>trimStart\<close> and \<open>trimEnd\<close> remove: TAB, LF, VT, FF, CR, space, NBSP\<close>
  "isWhiteSpace c = (c = CHR 0x09 \<or> c = CHR 0x0A \<or> c = CHR 0x0B \<or> c = CHR 0x0C
     \<or> c = CHR 0x0D \<or> c = CHR 0x20 \<or> c = CHR 0xA0)"

definition isWordChar :: "char \<Rightarrow> bool" where
  \<comment> \<open>the class \<open>\w\<close> that the assertion \<open>\b\<close> is defined by\<close>
  "isWordChar c = (let n = (of_char c :: nat) in
     (48 \<le> n \<and> n \<le> 57) \<or> (65 \<le> n \<and> n \<le> 90) \<or> n = 95 \<or> (97 \<le> n \<and> n \<le> 122))"

definition trimStart :: "string \<Rightarrow> string" where
  "trimStart s = dropWhile isWhiteSpace s"

definition trimEnd :: "string \<Rightarrow> string" where
  "trimEnd s = rev (dropWhile isWhiteSpace (rev s))"

definition sliceLast :: "string \<Rightarrow> string" where
  \<comment> \<open>\<open>s.slice(-1)\<close>: the last character as a string, or the empty string\<close>
  "sliceLast s = (if s = [] then [] else [last s])"

definition charAt :: "string \<Rightarrow> nat \<Rightarrow> char option" where
  \<comment> \<open>\<open>s[i]\<close>: \<open>undefined\<close> (here \<open>None\<close>) beyond the end\<close>
  "charAt s i = (if i < length s then Some (s ! i) else None)"

definition toLowerChar :: "char \<Rightarrow> char" where
  "toLowerChar c = (let n = (of_char c :: nat) in
     if (65 \<le> n \<and> n \<le> 90) \<or> (192 \<le> n \<and> n \<le> 222 \<and> n \<noteq> 215) then char_of (n + 32) else c)"

definition toLowerCase :: "string \<Rightarrow> string" where
  "toLowerCase s = map toLowerChar s"

fun splitLines :: "string \<Rightarrow> string list" where
  \<comment> \<open>\<open>s.split("\n")\<close>; also the lines of a document\<close>
  "splitLines [] = [[]]"
| "splitLines (c # cs) =
     (if c = CHR 0x0A then [] # splitLines cs
      else (case splitLines cs of l # ls \<Rightarrow> (c # l) # ls | [] \<Rightarrow> [[c]]))"

fun indexFrom :: "string \<Rightarrow> string \<Rightarrow> nat option" where
  "indexFrom pat [] = (if pat = [] then Some 0 else None)"
| "indexFrom pat (c # cs) =
     (if prefix pat (c # cs) then Some 0 else map_option Suc (indexFrom pat cs))"

definition indexOf :: "string \<Rightarrow> string \<Rightarrow> nat \<Rightarrow> nat option" where
  \<comment> \<open>\<open>s.indexOf(pat, start)\<close>, with \<open>None\<close> for -1\<close>
  "indexOf s pat start =
     (let k = min start (length s) in map_option (\<lambda>i. k + i) (indexFrom pat (drop k s)))"

section \<open>The regular expressions\<close>

text \<open>
  \<open>s.replace(re, "")\<close> with a global expression scans left to right; where the expression
  matches, the match is dropped and the scan goes on behind it, elsewhere one character is
  kept. A matcher gives the length of the match that starts at the head of its argument.
\<close>

fun replaceAll :: "(string \<Rightarrow> nat option) \<Rightarrow> string \<Rightarrow> string" where
  "replaceAll m [] = []"
| "replaceAll m (c # cs) =
     (case m (c # cs) of
        Some (Suc n) \<Rightarrow> replaceAll m (drop n cs)
      | _ \<Rightarrow> c # replaceAll m cs)"

fun lazyTail :: "string \<Rightarrow> nat option" where
  \<comment> \<open>\<open>.*?[^>]>\<close>: the shortest run of non-terminators, one character other than \<open>>\<close>, then \<open>>\<close>\<close>
  "lazyTail (c # d # t) =
     (if c \<noteq> CHR ''>'' \<and> d = CHR ''>'' then Some 2
      else if isLineTerminator c then None
      else map_option Suc (lazyTail (d # t)))"
| "lazyTail _ = None"

definition matchOpen :: "string \<Rightarrow> string \<Rightarrow> nat option" where
  \<comment> \<open>\<open>/<mark style.*?[^>]>/\<close> and \<open>/<mark class.*?[^>]>/\<close>, by their literal head\<close>
  "matchOpen lit s =
     (if prefix lit s then map_option (\<lambda>n. length lit + n) (lazyTail (drop (length lit) s))
      else None)"

definition matchClose :: "string \<Rightarrow> nat option" where
  \<comment> \<open>\<open>/<[/]mark>/\<close>\<close>
  "matchClose s = (if prefix ''</mark>'' s then Some 7 else None)"

definition stripMarks :: "string \<Rightarrow> string" where
  \<comment> \<open>the three chained \<open>replace\<close> calls of \<open>eraseHighlight\<close> and \<open>applyCommand\<close>\<close>
  "stripMarks s =
     replaceAll matchClose
       (replaceAll (matchOpen ''<mark class'')
         (replaceAll (matchOpen ''<mark style'') s))"

definition testOpenAt :: "string \<Rightarrow> bool" where
  \<comment> \<open>\<open>/<mark\b[^>]*>/i\<close> anchored at the head of the string\<close>
  "testOpenAt s =
     (case s of
        a # b # c # d # e # f # rest \<Rightarrow>
          a = CHR ''<'' \<and> (b = CHR ''m'' \<or> b = CHR ''M'') \<and> (c = CHR ''a'' \<or> c = CHR ''A'')
          \<and> (d = CHR ''r'' \<or> d = CHR ''R'') \<and> (e = CHR ''k'' \<or> e = CHR ''K'')
          \<and> \<not> isWordChar f \<and> CHR ''>'' \<in> set (f # rest)
      | _ \<Rightarrow> False)"

fun testOpenMark :: "string \<Rightarrow> bool" where
  \<comment> \<open>\<open>/<mark\b[^>]*>/i.test(s)\<close>\<close>
  "testOpenMark [] = False"
| "testOpenMark (c # cs) = (testOpenAt (c # cs) \<or> testOpenMark cs)"

section \<open>The editor\<close>

text \<open>
  Modelled from the spec: the host's \<open>Editor\<close> (the Buffer interface of the specification,
  section 6) is not part of the repository. The document is its text with the lines joined
  by LF; the selection is a pair of offsets, anchor and head. A position is turned into an
  offset by clamping (section 7): a line before the first gives the start of the document, a
  line behind the last its end, a column is cut to the length of its line. A range whose end
  lies before its start is read as empty.
\<close>

record EditorPosition =
  line :: int
  ch :: int

record Editor =
  doc :: string
  anchor :: nat
  head :: nat

definition lineStart :: "string list \<Rightarrow> nat \<Rightarrow> nat" where
  "lineStart ls n = sum_list (map (\<lambda>l. Suc (length l)) (take n ls))"

definition posToOffset :: "string \<Rightarrow> EditorPosition \<Rightarrow> nat" where
  \<comment> \<open>Modelled from the spec: a position is clamped to the document and to its line\<close>
  "posToOffset d p =
     (let ls = splitLines d in
      if line p < 0 then 0
      else if int (length ls) \<le> line p then length d
      else lineStart ls (nat (line p)) + min (nat (ch p)) (length (ls ! nat (line p))))"

definition offsetToPos :: "string \<Rightarrow> nat \<Rightarrow> EditorPosition" where
  \<comment> \<open>Modelled from the spec: the line and the column of an offset\<close>
  "offsetToPos d n =
     (let ls = splitLines (take n d) in
      \<lparr>line = int (length ls) - 1, ch = int (length (last ls))\<rparr>)"

definition selFrom :: "Editor \<Rightarrow> nat" where
  "selFrom ed = min (anchor ed) (head ed)"

definition selTo :: "Editor \<Rightarrow> nat" where
  "selTo ed = max (anchor ed) (head ed)"

definition getCursor :: "Editor \<Rightarrow> EditorPosition" where
  \<comment> \<open>Modelled from the spec: \<open>getCursor()\<close> is the head of the selection\<close>
  "getCursor ed = offsetToPos (doc ed) (head ed)"

definition getCursorFrom :: "Editor \<Rightarrow> EditorPosition" where
  \<comment> \<open>Modelled from the spec: \<open>getCursor("from")\<close>, the start of the selection\<close>
  "getCursorFrom ed = offsetToPos (doc ed) (selFrom ed)"

definition getCursorTo :: "Editor \<Rightarrow> EditorPosition" where
  \<comment> \<open>Modelled from the spec: \<open>getCursor("to")\<close>, the end of the selection\<close>
  "getCursorTo ed = offsetToPos (doc ed) (selTo ed)"

definition getSelection :: "Editor \<Rightarrow> string" where
  \<comment> \<open>Modelled from the spec: the text between the two ends of the selection\<close>
  "getSelection ed = take (selTo ed - selFrom ed) (drop (selFrom ed) (doc ed))"

definition getLine :: "Editor \<Rightarrow> int \<Rightarrow> string" where
  \<comment> \<open>Modelled from the spec: the text of line \<open>n\<close>, empty where there is no such line\<close>
  "getLine ed n =
     (let ls = splitLines (doc ed) in
      if 0 \<le> n \<and> n < int (length ls) then ls ! nat n else [])"

definition getRange :: "Editor \<Rightarrow> EditorPosition \<Rightarrow> EditorPosition \<Rightarrow> string" where
  \<comment> \<open>Modelled from the spec: the text between two clamped positions\<close>
  "getRange ed p q =
     (let a = posToOffset (doc ed) p; b = posToOffset (doc ed) q
      in take (b - a) (drop a (doc ed)))"

definition setSelection :: "Editor \<Rightarrow> EditorPosition \<Rightarrow> EditorPosition \<Rightarrow> Editor" where
  \<comment> \<open>Modelled from the spec: anchor and head become the two clamped positions\<close>
  "setSelection ed p q =
     ed\<lparr>anchor := posToOffset (doc ed) p, head := posToOffset (doc ed) q\<rparr>"

definition setCursor :: "Editor \<Rightarrow> EditorPosition \<Rightarrow> Editor" where
  \<comment> \<open>Modelled from the spec: an empty selection at the clamped position\<close>
  "setCursor ed p = ed\<lparr>anchor := posToOffset (doc ed) p, head := posToOffset (doc ed) p\<rparr>"

definition mapOffset :: "nat \<Rightarrow> nat \<Rightarrow> nat \<Rightarrow> nat \<Rightarrow> nat" where
  \<comment> \<open>Modelled from the spec: where an offset lands when the range from \<open>a\<close> to \<open>b\<close> is
     replaced by \<open>n\<close> characters\<close>
  "mapOffset a b n off = (if off \<le> a then off else if b \<le> off then off - b + a + n else a + n)"

definition replaceRange :: "Editor \<Rightarrow> string \<Rightarrow> EditorPosition \<Rightarrow> EditorPosition \<Rightarrow> Editor" where
  \<comment> \<open>Modelled from the spec: the text between two clamped positions is replaced and the
     selection moves with the text around it\<close>
  "replaceRange ed text p q =
     (let a = posToOffset (doc ed) p; b = max a (posToOffset (doc ed) q)
      in \<lparr>doc = take a (doc ed) @ text @ drop b (doc ed),
          anchor = mapOffset a b (length text) (anchor ed),
          head = mapOffset a b (length text) (head ed)\<rparr>)"

definition replaceSelection :: "Editor \<Rightarrow> string \<Rightarrow> Editor" where
  \<comment> \<open>Modelled from the spec: the selection is replaced and the cursor is left behind the
     inserted text\<close>
  "replaceSelection ed text =
     (let a = selFrom ed; b = selTo ed
      in \<lparr>doc = take a (doc ed) @ text @ drop b (doc ed),
          anchor = a + length text, head = a + length text\<rparr>)"

section \<open>selectRegion.ts\<close>

record MarkRegionResult =
  mselection :: string
  markSelectionMade :: bool
  mfrom :: EditorPosition
  mto :: EditorPosition

function scanMark :: "string \<Rightarrow> int \<Rightarrow> nat \<Rightarrow> (nat \<times> nat) option" where
  \<comment> \<open>the \<open>while (true)\<close> loop of \<open>selectMarkRegionIfInside\<close>; the result is \<open>(markStart, markEnd)\<close>\<close>
  "scanMark lineText cursorCh searchPos =
     (case indexOf lineText ''<mark'' searchPos of
        None \<Rightarrow> None
      | Some openIdx \<Rightarrow>
          (case indexOf lineText ''</mark>'' openIdx of
             None \<Rightarrow> None
           | Some closeIdxRaw \<Rightarrow>
               (let closeIdx = closeIdxRaw + length ''</mark>'' in
                if int openIdx \<le> cursorCh \<and> cursorCh \<le> int closeIdx then Some (openIdx, closeIdx)
                else scanMark lineText cursorCh closeIdx)))"
  by pat_completeness auto

termination scanMark
proof (relation "measure (\<lambda>(lineText, cursorCh, searchPos). length lineText - searchPos)")
  show "wf (measure (\<lambda>(lineText, cursorCh, searchPos). length lineText - searchPos))"
    by simp
next
  fix lineText :: string and cursorCh :: int and searchPos openIdx closeIdxRaw closeIdx :: nat
  assume o: "indexOf lineText ''<mark'' searchPos = Some openIdx"
    and c: "indexOf lineText ''</mark>'' openIdx = Some closeIdxRaw"
    and e: "closeIdx = closeIdxRaw + length ''</mark>''"
  have fit: "i + length pat \<le> length s" if "indexFrom pat s = Some i" for pat s i
    using that
  proof (induction s arbitrary: i)
    case Nil
    then show ?case by (simp split: if_splits)
  next
    case (Cons a s)
    then show ?case by (auto dest: prefix_length_le split: if_splits)
  qed
  from o have "min searchPos (length lineText) \<le> openIdx"
    by (auto simp: indexOf_def Let_def)
  moreover from c have "min openIdx (length lineText) \<le> closeIdxRaw"
    and "closeIdxRaw + 7 \<le> length lineText"
    using fit [of "''</mark>''" "drop (min openIdx (length lineText)) lineText"]
    by (auto simp: indexOf_def Let_def)
  ultimately have "searchPos < closeIdx" and "closeIdx \<le> length lineText"
    using e by auto
  then show "((lineText, cursorCh, closeIdx), (lineText, cursorCh, searchPos))
      \<in> measure (\<lambda>(lineText, cursorCh, searchPos). length lineText - searchPos)"
    by simp
qed

definition selectMarkRegionIfInside :: "Editor \<Rightarrow> bool \<Rightarrow> Editor \<times> MarkRegionResult" where
  "selectMarkRegionIfInside editor makeSelection =
     (let selection = getSelection editor;
          cursor = getCursor editor;
          lineText = getLine editor (line cursor)
      in if selection = [] then
           (case scanMark lineText (ch cursor) 0 of
              Some (markStart, markEnd) \<Rightarrow>
                (let editor' =
                   (if makeSelection
                    then setSelection editor \<lparr>line = line cursor, ch = int markStart\<rparr>
                                             \<lparr>line = line cursor, ch = int markEnd\<rparr>
                    else editor)
                 in (editor', \<lparr>mselection = getSelection editor', markSelectionMade = True,
                               mfrom = getCursorFrom editor', mto = getCursorTo editor'\<rparr>))
            | None \<Rightarrow>
                (editor, \<lparr>mselection = selection, markSelectionMade = False,
                          mfrom = getCursorFrom editor, mto = getCursorTo editor\<rparr>))
         else (editor, \<lparr>mselection = selection, markSelectionMade = False,
                        mfrom = getCursorFrom editor, mto = getCursorTo editor\<rparr>))"

record WordSelectionResult =
  wselection :: string
  wfrom :: EditorPosition
  wto :: EditorPosition
  wordSelected :: bool

fun wordStart :: "string \<Rightarrow> nat \<Rightarrow> nat" where
  \<comment> \<open>the loop that moves \<open>startCh\<close> left until a space or the start of the line\<close>
  "wordStart lineText startCh =
     (if startCh > 0 \<and> charAt lineText (startCh - 1) \<noteq> Some CHR '' ''
      then wordStart lineText (startCh - 1) else startCh)"

function wordEnd :: "string \<Rightarrow> nat \<Rightarrow> nat" where
  \<comment> \<open>the loop that moves \<open>endCh\<close> right until a space or the end of the line\<close>
  "wordEnd lineText endCh =
     (if endCh < length lineText \<and> charAt lineText endCh \<noteq> Some CHR '' ''
      then wordEnd lineText (endCh + 1) else endCh)"
  by pat_completeness auto
termination
  by (relation "measure (\<lambda>(lineText, endCh). length lineText - endCh)") auto

definition selectWordIfNone :: "Editor \<Rightarrow> Editor \<times> WordSelectionResult" where
  \<comment> \<open>the cursor of the buffer has a column that is not negative, so the loops run on \<open>nat\<close>\<close>
  "selectWordIfNone editor =
     (let selection = getSelection editor
      in if selection = [] then
           (let cursor = getCursor editor;
                lineText = getLine editor (line cursor);
                startCh = wordStart lineText (nat (ch cursor));
                endCh = wordEnd lineText (nat (ch cursor));
                editor' = setSelection editor \<lparr>line = line cursor, ch = int startCh\<rparr>
                                              \<lparr>line = line cursor, ch = int endCh\<rparr>
            in (editor', \<lparr>wselection = getSelection editor', wfrom = getCursorFrom editor',
                          wto = getCursorTo editor', wordSelected = True\<rparr>))
         else (editor, \<lparr>wselection = selection, wfrom = getCursorFrom editor,
                        wto = getCursorTo editor, wordSelected = False\<rparr>))"

section \<open>The plugin\<close>

text \<open>
  The settings object, with the fields the two files read. \<open>highlighters\<close> is the object
  that maps a highlighter name to its colour, as the list of its entries.
\<close>

record HighlightrSettings =
  highlighterMethods :: string
  highlighters :: "(string \<times> string) list"
  highlighterOrder :: "string list"
  useTogglingBehavior :: bool

record CommandPlot =
  char_cp :: int
  line_cp :: int
  prefix_cp :: string
  suffix_cp :: string

definition objectPrototype :: "(string \<times> string) list" where
  \<comment> \<open>the members that a plain object inherits from \<open>Object.prototype\<close>, each with the text
     that V8 prints for it inside a template literal\<close>
  "objectPrototype =
     [(''constructor'', ''function Object() { [native code] }''),
      (''__defineGetter__'', ''function __defineGetter__() { [native code] }''),
      (''__defineSetter__'', ''function __defineSetter__() { [native code] }''),
      (''hasOwnProperty'', ''function hasOwnProperty() { [native code] }''),
      (''__lookupGetter__'', ''function __lookupGetter__() { [native code] }''),
      (''__lookupSetter__'', ''function __lookupSetter__() { [native code] }''),
      (''isPrototypeOf'', ''function isPrototypeOf() { [native code] }''),
      (''propertyIsEnumerable'', ''function propertyIsEnumerable() { [native code] }''),
      (''toString'', ''function toString() { [native code] }''),
      (''valueOf'', ''function valueOf() { [native code] }''),
      (''__proto__'', ''[object Object]''),
      (''toLocaleString'', ''function toLocaleString() { [native code] }'')]"

definition getProperty :: "(string \<times> string) list \<Rightarrow> string \<Rightarrow> string option" where
  \<comment> \<open>\<open>obj[key]\<close> on a plain object: its own entry, else the inherited member, else
     \<open>undefined\<close> (here \<open>None\<close>)\<close>
  "getProperty obj key =
     (case map_of obj key of Some v \<Rightarrow> Some v | None \<Rightarrow> map_of objectPrototype key)"

definition templateValue :: "string option \<Rightarrow> string" where
  \<comment> \<open>a value inside a template literal: a missing property is \<open>undefined\<close> and prints as such\<close>
  "templateValue v = (case v of Some s \<Rightarrow> s | None \<Rightarrow> ''undefined'')"

definition commandsMap :: "HighlightrSettings \<Rightarrow> string \<Rightarrow> CommandPlot" where
  \<comment> \<open>the entry \<open>highlight\<close> of \<open>commandsMap\<close>, for one \<open>highlighterKey\<close>\<close>
  \<open>commandsMap settings highlighterKey =
     \<lparr>char_cp = 34, line_cp = 0,
      prefix_cp =
        (if highlighterMethods settings = ''css-classes''
         then ''<mark class="hltr-'' @ toLowerCase highlighterKey @ ''">''
         else ''<mark style="background: ''
              @ templateValue (getProperty (highlighters settings) highlighterKey) @ '';">''),
      suffix_cp = ''</mark>''\<rparr>\<close>

definition eraseNewTo :: "EditorPosition \<Rightarrow> string \<Rightarrow> EditorPosition" where
  \<comment> \<open>\<open>newTo\<close> of \<open>eraseHighlight\<close>\<close>
  "eraseNewTo from newStr =
     (let lines = splitLines newStr
      in if length lines = 1
         then \<lparr>line = line from, ch = ch from + int (length (hd lines))\<rparr>
         else \<lparr>line = line from + (int (length lines) - 1), ch = int (length (last lines))\<rparr>)"

definition eraseHighlight :: "HighlightrSettings \<Rightarrow> Editor \<Rightarrow> Editor" where
  "eraseHighlight settings editor =
     (let (editor1, r) = selectMarkRegionIfInside editor True;
          from = mfrom r; to = mto r;
          currentStr = getRange editor1 from to;
          newStr = stripMarks currentStr;
          editor2 = replaceRange editor1 newStr from to
      in if useTogglingBehavior settings \<and> length newStr > 0 then
           (let newTo = eraseNewTo from newStr
            in if \<not> markSelectionMade r then setSelection editor2 from newTo
               else setCursor editor2 newTo)
         else if markSelectionMade r then setCursor editor2 from
         else editor2)"

definition toggleApply ::
  "CommandPlot \<Rightarrow> Editor \<Rightarrow> WordSelectionResult \<Rightarrow> Editor" where
  \<comment> \<open>the body of \<open>if (this.settings.useTogglingBehavior)\<close> in \<open>applyCommand\<close>; both branches return\<close>
  "toggleApply command editor w =
     (let selectedText = wselection w; curserStart = wfrom w;
          prefix' = prefix_cp command;
          suffix' = (if suffix_cp command = [] then prefix' else suffix_cp command)
      in if selectedText \<noteq> [] \<and> testOpenMark selectedText then
           (let newStr = stripMarks selectedText;
                editor2 = replaceSelection editor newStr;
                newTo = \<lparr>line = line curserStart, ch = ch curserStart + int (length newStr)\<rparr>
            in setSelection editor2 curserStart newTo)
         else
           (let editor2 = replaceSelection editor (prefix' @ selectedText @ suffix')
            in if selectedText \<noteq> [] \<and> length selectedText > 0 \<and> \<not> wordSelected w then
                 setSelection editor2 curserStart
                   \<lparr>line = line curserStart,
                    ch = ch curserStart + int (length prefix') + int (length selectedText)
                         + int (length suffix')\<rparr>
               else setCursor editor2
                   \<lparr>line = line curserStart, ch = ch curserStart + int (length prefix')\<rparr>))"

definition cursorPos :: "string \<Rightarrow> string \<Rightarrow> string \<Rightarrow> int" where
  "cursorPos selectedText prefix' suffix' =
     (if length selectedText > 0 then int (length prefix') + int (length suffix') + 1
      else int (length prefix'))"

definition preStart :: "CommandPlot \<Rightarrow> EditorPosition \<Rightarrow> EditorPosition" where
  "preStart command curserStart =
     \<lparr>line = line curserStart - line_cp command,
      ch = ch curserStart - int (length (prefix_cp command))\<rparr>"

definition sufEnd :: "CommandPlot \<Rightarrow> string \<Rightarrow> EditorPosition \<Rightarrow> EditorPosition \<Rightarrow> EditorPosition" where
  "sufEnd command suffix' curserStart curserEnd =
     \<lparr>line = line curserStart + line_cp command, ch = ch curserEnd + int (length suffix')\<rparr>"

definition mergeApply ::
  "HighlightrSettings \<Rightarrow> CommandPlot \<Rightarrow> Editor \<Rightarrow> WordSelectionResult \<Rightarrow> Editor" where
  \<comment> \<open>the rest of \<open>applyCommand\<close>, behind the toggling block\<close>
  "mergeApply settings command editor w =
     (let selectedText = wselection w; curserStart = wfrom w; curserEnd = wto w;
          prefix' = prefix_cp command;
          suffix' = (if suffix_cp command = [] then prefix' else suffix_cp command);
          cPos = cursorPos selectedText prefix' suffix';
          pre = getRange editor (preStart command curserStart) curserStart;
          suf = getRange editor curserEnd (sufEnd command suffix' curserStart curserEnd);
          preLast = sliceLast pre;
          prefixLast = sliceLast (trimStart prefix')
      in if suf = trimEnd suffix' \<and> preLast = prefixLast \<and> selectedText \<noteq> [] then
           setCursor
             (replaceRange editor selectedText (preStart command curserStart)
                (sufEnd command suffix' curserStart curserEnd))
             \<lparr>line = line curserStart + line_cp command * (- 1),
              ch = ch curserEnd + (cPos * (- 1) + 8)\<rparr>
         else
           (let editor2 = replaceSelection editor (prefix' @ selectedText @ suffix');
                editor3 =
                  (if useTogglingBehavior settings then
                     setSelection editor2
                       \<lparr>line = line curserStart + line_cp command, ch = ch curserStart\<rparr>
                       \<lparr>line = line curserStart + line_cp command,
                        ch = ch curserStart + int (length prefix') + int (length selectedText)
                             + int (length suffix')\<rparr>
                   else editor2)
            in setCursor editor3
                 \<lparr>line = line curserStart + line_cp command * 1, ch = ch curserEnd + cPos * 1\<rparr>))"

definition applyCommand :: "HighlightrSettings \<Rightarrow> CommandPlot \<Rightarrow> Editor \<Rightarrow> Editor" where
  "applyCommand settings command editor =
     (let (editor1, w) = selectWordIfNone editor
      in if useTogglingBehavior settings then toggleApply command editor1 w
         else mergeApply settings command editor1 w)"

section \<open>Notions of the specification\<close>

fun joinLines :: "string list \<Rightarrow> string" where
  \<comment> \<open>the text of a document, from its lines\<close>
  "joinLines [] = []"
| "joinLines [l] = l"
| "joinLines (l # m # ls) = l @ CHR 0x0A # joinLines (m # ls)"

fun occurs :: "string \<Rightarrow> string \<Rightarrow> bool" where
  \<comment> \<open>\<open>pat\<close> is a substring of the text\<close>
  "occurs pat [] = (pat = [])"
| "occurs pat (c # cs) = (prefix pat (c # cs) \<or> occurs pat cs)"

fun containsOpenTag :: "string \<Rightarrow> string \<Rightarrow> bool" where
  \<comment> \<open>an opening tag: its literal head \<open>lit\<close> somewhere in the text, and a \<open>>\<close> behind it\<close>
  "containsOpenTag lit [] = False"
| "containsOpenTag lit (c # cs) =
     ((prefix lit (c # cs) \<and> CHR ''>'' \<in> set (drop (length lit) (c # cs)))
      \<or> containsOpenTag lit cs)"

function markCandidates :: "string \<Rightarrow> nat \<Rightarrow> (nat \<times> nat) list" where
  \<comment> \<open>the regions \<open>(openStart, closeEnd)\<close> of a line, left to right from \<open>searchPos\<close>: a
     region opens at the next \<open><mark\<close> and closes behind the first \<open></mark>\<close> after it, the
     next one is looked for behind that close, and an open tag without a close ends the list\<close>
  "markCandidates lineText searchPos =
     (case indexOf lineText ''<mark'' searchPos of
        None \<Rightarrow> []
      | Some openStart \<Rightarrow>
          (case indexOf lineText ''</mark>'' openStart of
             None \<Rightarrow> []
           | Some closeStart \<Rightarrow>
               (openStart, closeStart + 7) # markCandidates lineText (closeStart + 7)))"
  by pat_completeness auto
termination
proof (relation "measure (\<lambda>(lineText, searchPos). length lineText - searchPos)")
  show "wf (measure (\<lambda>(lineText, searchPos). length lineText - searchPos))"
    by simp
next
  fix lineText :: string and searchPos openStart closeStart :: nat
  assume o: "indexOf lineText ''<mark'' searchPos = Some openStart"
    and c: "indexOf lineText ''</mark>'' openStart = Some closeStart"
  have fit: "i + length pat \<le> length s" if "indexFrom pat s = Some i" for pat s i
    using that
  proof (induction s arbitrary: i)
    case Nil
    then show ?case by (simp split: if_splits)
  next
    case (Cons a s)
    then show ?case by (auto dest: prefix_length_le split: if_splits)
  qed
  from o have "min searchPos (length lineText) \<le> openStart"
    by (auto simp: indexOf_def Let_def)
  moreover from c have "min openStart (length lineText) \<le> closeStart"
    and "closeStart + 7 \<le> length lineText"
    using fit [of "''</mark>''" "drop (min openStart (length lineText)) lineText"]
    by (auto simp: indexOf_def Let_def)
  ultimately have "searchPos < closeStart + 7" and "closeStart + 7 \<le> length lineText"
    by auto
  then show "((lineText, closeStart + 7), (lineText, searchPos))
      \<in> measure (\<lambda>(lineText, searchPos). length lineText - searchPos)"
    by simp
qed

definition mergeTaken :: "CommandPlot \<Rightarrow> Editor \<Rightarrow> WordSelectionResult \<Rightarrow> bool" where
  \<comment> \<open>when the merge happens: the text read behind the selection is the suffix without its
     trailing whitespace, the last character of the text read before the selection is the
     last character of the prefix without its leading whitespace, and the selected text is
     not empty\<close>
  "mergeTaken command editor w =
     (let suffix' = (if suffix_cp command = [] then prefix_cp command else suffix_cp command);
          pre = getRange editor (preStart command (wfrom w)) (wfrom w);
          suf = getRange editor (wto w) (sufEnd command suffix' (wfrom w) (wto w))
      in suf = trimEnd suffix'
         \<and> sliceLast pre = sliceLast (trimStart (prefix_cp command))
         \<and> wselection w \<noteq> [])"


definition withSelection :: "Editor \<Rightarrow> nat \<Rightarrow> nat \<Rightarrow> Editor" where
  \<comment> \<open>the buffer with the span from offset \<open>a\<close> to offset \<open>b\<close> selected\<close>
  "withSelection editor a b = editor\<lparr>anchor := a, head := b\<rparr>"

definition currentStr :: "Editor \<Rightarrow> string" where
  \<comment> \<open>\<open>currentStr\<close> of \<open>eraseHighlight\<close>: the text of the span that the locator returns\<close>
  "currentStr editor =
     (let (editor1, r) = selectMarkRegionIfInside editor True
      in getRange editor1 (mfrom r) (mto r))"

definition eraseSpan :: "Editor \<Rightarrow> nat \<times> nat" where
  \<comment> \<open>the offsets of \<open>from\<close> and \<open>to\<close> that \<open>eraseHighlight\<close> passes to \<open>replaceRange\<close>\<close>
  "eraseSpan editor =
     (let (editor1, r) = selectMarkRegionIfInside editor True
      in (posToOffset (doc editor1) (mfrom r), posToOffset (doc editor1) (mto r)))"

section \<open>Lines and offsets\<close>

declare scanMark.simps [simp del] wordStart.simps [simp del] wordEnd.simps [simp del]
  markCandidates.simps [simp del]

lemma splitLines_not_Nil [simp]: "splitLines s \<noteq> []"
  by (induction s) (auto split: list.splits)

lemma splitLines_Cons_other:
  "c \<noteq> CHR 0x0A \<Longrightarrow> splitLines (c # cs) = (c # hd (splitLines cs)) # tl (splitLines cs)"
  by (cases "splitLines cs") auto

lemma splitLines_no_break: "CHR 0x0A \<notin> set s \<Longrightarrow> splitLines s = [s]"
  by (induction s) (auto split: list.splits)

lemma splitLines_append:
  "splitLines (a @ b) =
     butlast (splitLines a) @ [last (splitLines a) @ hd (splitLines b)] @ tl (splitLines b)"
proof (induction a)
  case Nil
  then show ?case by (cases "splitLines b") auto
next
  case (Cons c a)
  show ?case
  proof (cases "c = CHR 0x0A")
    case True
    then show ?thesis using Cons by simp
  next
    case False
    obtain l ls where s: "splitLines a = l # ls" by (cases "splitLines a") auto
    show ?thesis
      using False Cons s by (cases ls) (auto simp: splitLines_Cons_other)
  qed
qed

lemma lines_no_break: "l \<in> set (splitLines s) \<Longrightarrow> CHR 0x0A \<notin> set l"
proof (induction s arbitrary: l)
  case Nil
  then show ?case by simp
next
  case (Cons c s)
  then show ?case by (cases "splitLines s") (auto split: if_splits)
qed

lemma joinLines_splitLines [simp]: "joinLines (splitLines s) = s"
proof (induction s)
  case Nil
  then show ?case by simp
next
  case (Cons c s)
  obtain l ls where s: "splitLines s = l # ls" by (cases "splitLines s") auto
  then show ?case using Cons by (cases ls) auto
qed

lemma splitLines_joinLines:
  "ls \<noteq> [] \<Longrightarrow> \<forall>l \<in> set ls. CHR 0x0A \<notin> set l \<Longrightarrow> splitLines (joinLines ls) = ls"
proof (induction ls rule: joinLines.induct)
  case 1
  then show ?case by simp
next
  case (2 l)
  then show ?case by (simp add: splitLines_no_break)
next
  case (3 l m ls)
  then have "splitLines (joinLines (m # ls)) = m # ls" by simp
  then show ?case using 3(3)
    by (simp add: splitLines_append [of l] splitLines_no_break)
qed

lemma length_joinLines_butlast:
  "ls \<noteq> [] \<Longrightarrow> lineStart ls (length ls - 1) + length (last ls) = length (joinLines ls)"
  by (induction ls rule: joinLines.induct) (auto simp: lineStart_def)

lemma lineStart_last:
  "lineStart (splitLines s) (length (splitLines s) - 1) + length (last (splitLines s)) = length s"
  using length_joinLines_butlast [of "splitLines s"] by simp

lemma posToOffset_offsetToPos: "posToOffset d (offsetToPos d n) = min n (length d)"
proof -
  define a where "a = take n d"
  define b where "b = drop n d"
  have d: "d = a @ b" by (simp add: a_def b_def)
  define la where "la = splitLines a"
  have la: "la \<noteq> []" by (simp add: la_def)
  have sp: "splitLines d = butlast la @ [last la @ hd (splitLines b)] @ tl (splitLines b)"
    unfolding d la_def by (rule splitLines_append)
  have st: "lineStart (splitLines d) (length la - 1) = lineStart la (length la - 1)"
    unfolding sp using la
    by (simp add: lineStart_def butlast_conv_take)
  have nth: "splitLines d ! (length la - 1) = last la @ hd (splitLines b)"
    unfolding sp by (simp add: nth_append)
  have "lineStart la (length la - 1) + length (last la) = length a"
    unfolding la_def by (rule lineStart_last)
  moreover have "length a = min n (length d)" by (simp add: a_def min.commute)
  moreover have "length la \<le> length (splitLines d)"
    unfolding sp using la by (cases "splitLines b") auto
  ultimately show ?thesis
    using la st nth
    by (simp add: posToOffset_def offsetToPos_def Let_def a_def [symmetric] la_def [symmetric]
        nat_diff_distrib')
qed

lemma lineStart_bound:
  "k < length ls \<Longrightarrow> c \<le> length (ls ! k) \<Longrightarrow> lineStart ls k + c \<le> length (joinLines ls)"
proof (induction ls arbitrary: k rule: joinLines.induct)
  case 1
  then show ?case by simp
next
  case (2 l)
  then show ?case by (simp add: lineStart_def)
next
  case (3 l m ls)
  show ?case
  proof (cases k)
    case 0
    then show ?thesis using 3(2,3) by (simp add: lineStart_def)
  next
    case (Suc j)
    then have "lineStart (m # ls) j + c \<le> length (joinLines (m # ls))"
      using 3 by simp
    then show ?thesis using Suc by (simp add: lineStart_def)
  qed
qed

lemma posToOffset_le: "posToOffset d p \<le> length d"
proof (cases "line p < 0 \<or> int (length (splitLines d)) \<le> line p")
  case True
  then show ?thesis by (auto simp: posToOffset_def Let_def)
next
  case False
  then have k: "nat (line p) < length (splitLines d)" by auto
  have "lineStart (splitLines d) (nat (line p))
      + min (nat (ch p)) (length (splitLines d ! nat (line p))) \<le> length (joinLines (splitLines d))"
    by (rule lineStart_bound [OF k]) simp
  then show ?thesis using False by (simp add: posToOffset_def Let_def)
qed

lemma take_lineStart:
  "k < length ls \<Longrightarrow> c \<le> length (ls ! k) \<Longrightarrow>
   take (lineStart ls k + c) (joinLines ls) = joinLines (take k ls @ [take c (ls ! k)])"
proof (induction ls arbitrary: k rule: joinLines.induct)
  case 1
  then show ?case by simp
next
  case (2 l)
  then show ?case by (simp add: lineStart_def)
next
  case (3 l m ls)
  show ?case
  proof (cases k)
    case 0
    then show ?thesis using 3(2,3) by (simp add: lineStart_def)
  next
    case (Suc j)
    then have ih: "take (lineStart (m # ls) j + c) (joinLines (m # ls))
        = joinLines (take j (m # ls) @ [take c ((m # ls) ! j)])"
      using 3 by simp
    have ne: "take j (m # ls) @ [take c ((m # ls) ! j)] \<noteq> []" by simp
    then obtain x xs where x: "take j (m # ls) @ [take c ((m # ls) ! j)] = x # xs"
      by (cases "take j (m # ls) @ [take c ((m # ls) ! j)]") auto
    have "lineStart (l # m # ls) (Suc j) = Suc (length l) + lineStart (m # ls) j"
      by (simp add: lineStart_def)
    then show ?thesis using Suc ih x by simp
  qed
qed

lemma drop_lineStart:
  "k < length ls \<Longrightarrow> c \<le> length (ls ! k) \<Longrightarrow>
   \<exists>rest. drop (lineStart ls k + c) (joinLines ls) = drop c (ls ! k) @ rest"
proof (induction ls arbitrary: k rule: joinLines.induct)
  case 1
  then show ?case by simp
next
  case (2 l)
  then show ?case by (simp add: lineStart_def)
next
  case (3 l m ls)
  show ?case
  proof (cases k)
    case 0
    then show ?thesis using 3(2,3) by (simp add: lineStart_def)
  next
    case (Suc j)
    then have ih: "\<exists>rest. drop (lineStart (m # ls) j + c) (joinLines (m # ls))
        = drop c ((m # ls) ! j) @ rest"
      using 3 by simp
    have "lineStart (l # m # ls) (Suc j) = Suc (length l) + lineStart (m # ls) j"
      by (simp add: lineStart_def)
    then show ?thesis using Suc ih by simp
  qed
qed

lemma offsetToPos_lineStart:
  assumes "k < length (splitLines d)" "c \<le> length (splitLines d ! k)"
  shows "offsetToPos d (lineStart (splitLines d) k + c) = \<lparr>line = int k, ch = int c\<rparr>"
proof -
  let ?ls = "splitLines d"
  have t: "take (lineStart ?ls k + c) d = joinLines (take k ?ls @ [take c (?ls ! k)])"
    using take_lineStart [OF assms] by simp
  have nb: "\<forall>l \<in> set (take k ?ls @ [take c (?ls ! k)]). CHR 0x0A \<notin> set l"
  proof
    fix l assume "l \<in> set (take k ?ls @ [take c (?ls ! k)])"
    then consider "l \<in> set (take k ?ls)" | "l = take c (?ls ! k)" by auto
    then show "CHR 0x0A \<notin> set l"
    proof cases
      case 1
      then have "l \<in> set ?ls" by (rule in_set_takeD)
      then show ?thesis by (rule lines_no_break)
    next
      case 2
      have "?ls ! k \<in> set ?ls" using assms(1) by simp
      then have "CHR 0x0A \<notin> set (?ls ! k)" by (rule lines_no_break)
      then show ?thesis unfolding 2 by (meson in_set_takeD)
    qed
  qed
  have "splitLines (take (lineStart ?ls k + c) d) = take k ?ls @ [take c (?ls ! k)]"
    unfolding t by (rule splitLines_joinLines) (use nb in simp_all)
  then show ?thesis using assms by (simp add: offsetToPos_def Let_def)
qed

lemma posToOffset_inside:
  "0 \<le> line p \<Longrightarrow> nat (line p) < length (splitLines d) \<Longrightarrow>
   posToOffset d p = lineStart (splitLines d) (nat (line p))
     + min (nat (ch p)) (length (splitLines d ! nat (line p)))"
  by (auto simp: posToOffset_def Let_def)

lemma offsetToPos_posToOffset:
  assumes "0 \<le> line p" "nat (line p) < length (splitLines d)"
    "0 \<le> ch p" "nat (ch p) \<le> length (splitLines d ! nat (line p))"
  shows "offsetToPos d (posToOffset d p) = p"
proof -
  have "posToOffset d p = lineStart (splitLines d) (nat (line p)) + nat (ch p)"
    using assms by (simp add: posToOffset_inside)
  then show ?thesis
    using offsetToPos_lineStart [OF assms(2) assms(4)] assms(1,3) by simp
qed

lemma cursor_in_line:
  assumes "offsetToPos d n = p"
  shows "0 \<le> line p \<and> nat (line p) < length (splitLines d) \<and> 0 \<le> ch p
    \<and> nat (ch p) \<le> length (splitLines d ! nat (line p))"
proof -
  define la where "la = splitLines (take n d)"
  define b where "b = drop n d"
  have la: "la \<noteq> []" by (simp add: la_def)
  have "splitLines (take n d @ b) = butlast la @ [last la @ hd (splitLines b)] @ tl (splitLines b)"
    unfolding la_def by (rule splitLines_append)
  then have sp: "splitLines d = butlast la @ [last la @ hd (splitLines b)] @ tl (splitLines b)"
    by (simp add: b_def)
  have nth: "splitLines d ! (length la - 1) = last la @ hd (splitLines b)"
    unfolding sp by (simp add: nth_append)
  have len: "length la - 1 < length (splitLines d)"
    unfolding sp by simp
  have p: "p = \<lparr>line = int (length la) - 1, ch = int (length (last la))\<rparr>"
    using assms by (simp add: offsetToPos_def Let_def la_def)
  have l: "nat (line p) = length la - 1" using la by (simp add: p nat_diff_distrib')
  show ?thesis
    unfolding l using la len nth by (auto simp: p)
qed

section \<open>Locating the span\<close>

text \<open>Selecting a range inside one line.\<close>

lemma select_in_line:
  assumes k: "0 \<le> l" "nat l < length (splitLines (doc ed))"
    and le: "a \<le> b" "b \<le> length (splitLines (doc ed) ! nat l)"
    and ed': "ed' = setSelection ed \<lparr>line = l, ch = int a\<rparr> \<lparr>line = l, ch = int b\<rparr>"
  shows "getCursorFrom ed' = \<lparr>line = l, ch = int a\<rparr>"
    and "getCursorTo ed' = \<lparr>line = l, ch = int b\<rparr>"
    and "getSelection ed' = take (b - a) (drop a (splitLines (doc ed) ! nat l))"
    and "doc ed' = doc ed"
proof -
  let ?ls = "splitLines (doc ed)"
  let ?s = "lineStart ?ls (nat l)"
  have a: "a \<le> length (?ls ! nat l)" using le by simp
  have an: "anchor ed' = ?s + a" and hd: "head ed' = ?s + b"
    using k le a by (simp_all add: ed' setSelection_def posToOffset_inside)
  show d: "doc ed' = doc ed" by (simp add: ed' setSelection_def)
  have f: "selFrom ed' = ?s + a" and t: "selTo ed' = ?s + b"
    using le by (simp_all add: selFrom_def selTo_def an hd)
  show "getCursorFrom ed' = \<lparr>line = l, ch = int a\<rparr>"
    using offsetToPos_lineStart [OF k(2) a] k(1) by (simp add: getCursorFrom_def f d)
  show "getCursorTo ed' = \<lparr>line = l, ch = int b\<rparr>"
    using offsetToPos_lineStart [OF k(2) le(2)] k(1) by (simp add: getCursorTo_def t d)
  obtain rest where r: "drop (?s + a) (joinLines ?ls) = drop a (?ls ! nat l) @ rest"
    using drop_lineStart [OF k(2) a] by blast
  show "getSelection ed' = take (b - a) (drop a (?ls ! nat l))"
    using r le by (simp add: getSelection_def f t d)
qed


lemma wordStart_le: "wordStart s n \<le> n"
proof (induction s n rule: wordStart.induct)
  case (1 s n)
  then show ?case by (subst wordStart.simps) auto
qed

lemma wordStart_word:
  "n \<le> length s \<Longrightarrow> wordStart s n \<le> i \<Longrightarrow> i < n \<Longrightarrow> s ! i \<noteq> CHR '' ''"
proof (induction s n rule: wordStart.induct)
  case (1 s n)
  show ?case
  proof (cases "n > 0 \<and> charAt s (n - 1) \<noteq> Some CHR '' ''")
    case True
    then have w: "wordStart s n = wordStart s (n - 1)" by (subst wordStart.simps) simp
    show ?thesis
    proof (cases "i = n - 1")
      case True
      then show ?thesis using \<open>n > 0 \<and> charAt s (n - 1) \<noteq> Some CHR '' ''\<close> 1(2)
        by (auto simp: charAt_def split: if_splits)
    next
      case False
      then show ?thesis using 1 True w by auto
    qed
  next
    case False
    then have "wordStart s n = n" by (subst wordStart.simps) auto
    then show ?thesis using 1 by simp
  qed
qed

lemma wordStart_stop:
  "n \<le> length s \<Longrightarrow> wordStart s n = 0 \<or> s ! (wordStart s n - 1) = CHR '' ''"
proof (induction s n rule: wordStart.induct)
  case (1 s n)
  show ?case
  proof (cases "n > 0 \<and> charAt s (n - 1) \<noteq> Some CHR '' ''")
    case True
    then have w: "wordStart s n = wordStart s (n - 1)" by (subst wordStart.simps) simp
    show ?thesis using 1 True unfolding w by auto
  next
    case False
    then have "wordStart s n = n" by (subst wordStart.simps) auto
    then show ?thesis using False 1(2) by (auto simp: charAt_def split: if_splits)
  qed
qed

lemma wordEnd_ge: "n \<le> wordEnd s n"
proof (induction s n rule: wordEnd.induct)
  case (1 s n)
  then show ?case by (subst wordEnd.simps) auto
qed

lemma wordEnd_le: "n \<le> length s \<Longrightarrow> wordEnd s n \<le> length s"
proof (induction s n rule: wordEnd.induct)
  case (1 s n)
  then show ?case by (subst wordEnd.simps) auto
qed

lemma wordEnd_word:
  "n \<le> i \<Longrightarrow> i < wordEnd s n \<Longrightarrow> s ! i \<noteq> CHR '' ''"
proof (induction s n rule: wordEnd.induct)
  case (1 s n)
  show ?case
  proof (cases "n < length s \<and> charAt s n \<noteq> Some CHR '' ''")
    case True
    then have w: "wordEnd s n = wordEnd s (n + 1)" by (subst wordEnd.simps) simp
    show ?thesis
    proof (cases "i = n")
      case True
      then show ?thesis using \<open>n < length s \<and> charAt s n \<noteq> Some CHR '' ''\<close>
        by (auto simp: charAt_def split: if_splits)
    next
      case False
      then show ?thesis using 1 True w by auto
    qed
  next
    case False
    then have "wordEnd s n = n" by (subst wordEnd.simps) auto
    then show ?thesis using 1 by simp
  qed
qed

lemma wordEnd_stop:
  "n \<le> length s \<Longrightarrow> wordEnd s n = length s \<or> s ! wordEnd s n = CHR '' ''"
proof (induction s n rule: wordEnd.induct)
  case (1 s n)
  show ?case
  proof (cases "n < length s \<and> charAt s n \<noteq> Some CHR '' ''")
    case True
    then have w: "wordEnd s n = wordEnd s (n + 1)" by (subst wordEnd.simps) simp
    show ?thesis using 1 True unfolding w by auto
  next
    case False
    then have "wordEnd s n = n" by (subst wordEnd.simps) auto
    then show ?thesis using False 1(2) by (auto simp: charAt_def split: if_splits)
  qed
qed

text \<open>
  Claim C7. With no active selection, \<open>selectWordIfNone\<close> widens the range from the column
  of the cursor to the left and to the right over the characters that are not a space, up
  to a space or an end of the line on each side, selects this range and returns it with
  \<open>wordSelected\<close> set. On the line \<open>abc def ghi\<close> with the cursor at column 5 it selects the
  columns 4 to 7, the word \<open>def\<close>.
\<close>

theorem locateWord_selects_the_word:
  assumes "getSelection ed = []"
    and "cursor = getCursor ed"
    and "lineText = getLine ed (line cursor)"
    and "startCh = wordStart lineText (nat (ch cursor))"
    and "endCh = wordEnd lineText (nat (ch cursor))"
    and "selectWordIfNone ed = (ed', w)"
  shows "startCh \<le> nat (ch cursor) \<and> nat (ch cursor) \<le> endCh \<and> endCh \<le> length lineText
    \<and> (\<forall>i. startCh \<le> i \<and> i < endCh \<longrightarrow> lineText ! i \<noteq> CHR '' '')
    \<and> (startCh = 0 \<or> lineText ! (startCh - 1) = CHR '' '')
    \<and> (endCh = length lineText \<or> lineText ! endCh = CHR '' '')
    \<and> wfrom w = \<lparr>line = line cursor, ch = int startCh\<rparr>
    \<and> wto w = \<lparr>line = line cursor, ch = int endCh\<rparr>
    \<and> wselection w = take (endCh - startCh) (drop startCh lineText)
    \<and> wordSelected w
    \<and> doc ed' = doc ed
    \<and> getSelection ed' = wselection w
    \<and> selectWordIfNone \<lparr>doc = ''abc def ghi'', anchor = 5, head = 5\<rparr>
        = (\<lparr>doc = ''abc def ghi'', anchor = 4, head = 7\<rparr>,
           \<lparr>wselection = ''def'', wfrom = \<lparr>line = 0, ch = 4\<rparr>, wto = \<lparr>line = 0, ch = 7\<rparr>,
            wordSelected = True\<rparr>)"
proof -
  let ?ls = "splitLines (doc ed)"
  let ?c = "nat (ch cursor)"
  have cur: "offsetToPos (doc ed) (head ed) = cursor"
    by (simp add: assms(2) getCursor_def)
  have k: "0 \<le> line cursor" "nat (line cursor) < length ?ls" "0 \<le> ch cursor"
    "?c \<le> length (?ls ! nat (line cursor))"
    using cursor_in_line [OF cur] by simp_all
  have lt: "lineText = ?ls ! nat (line cursor)"
    using k by (auto simp: assms(3) getLine_def Let_def)
  have c: "?c \<le> length lineText" using k by (simp add: lt)
  have b1: "startCh \<le> ?c" unfolding assms(4) by (rule wordStart_le)
  have b2: "?c \<le> endCh" unfolding assms(5) by (rule wordEnd_ge)
  have b3: "endCh \<le> length lineText" unfolding assms(5) using c by (rule wordEnd_le)
  have w: "lineText ! i \<noteq> CHR '' ''" if "startCh \<le> i" "i < endCh" for i
  proof (cases "i < ?c")
    case True
    then show ?thesis using wordStart_word [OF c, of i] that by (simp add: assms(4))
  next
    case False
    then show ?thesis using wordEnd_word [of ?c i lineText] that by (simp add: assms(5))
  qed
  have s1: "startCh = 0 \<or> lineText ! (startCh - 1) = CHR '' ''"
    unfolding assms(4) using c by (rule wordStart_stop)
  have s2: "endCh = length lineText \<or> lineText ! endCh = CHR '' ''"
    unfolding assms(5) using c by (rule wordEnd_stop)
  define e where "e = setSelection ed \<lparr>line = line cursor, ch = int startCh\<rparr>
      \<lparr>line = line cursor, ch = int endCh\<rparr>"
  have le: "startCh \<le> endCh" using b1 b2 by simp
  have b3': "endCh \<le> length (?ls ! nat (line cursor))" using b3 by (simp add: lt)
  note sel = select_in_line [OF k(1) k(2) le b3' e_def]
  have res: "selectWordIfNone ed = (e, \<lparr>wselection = getSelection e, wfrom = getCursorFrom e,
      wto = getCursorTo e, wordSelected = True\<rparr>)"
    using assms(1)
    by (simp add: selectWordIfNone_def Let_def assms(2,3,4,5) e_def)
  have ed': "ed' = e" and w': "w = \<lparr>wselection = getSelection e, wfrom = getCursorFrom e,
      wto = getCursorTo e, wordSelected = True\<rparr>"
    using res assms(6) by simp_all
  have ex: "selectWordIfNone \<lparr>doc = ''abc def ghi'', anchor = 5, head = 5\<rparr>
        = (\<lparr>doc = ''abc def ghi'', anchor = 4, head = 7\<rparr>,
           \<lparr>wselection = ''def'', wfrom = \<lparr>line = 0, ch = 4\<rparr>, wto = \<lparr>line = 0, ch = 7\<rparr>,
            wordSelected = True\<rparr>)"
    by code_simp
  show ?thesis
    using b1 b2 b3 w s1 s2 sel ex by (simp add: ed' w' lt)
qed

theorem locateWord_selects_the_word_witness:
  "getSelection \<lparr>doc = ''one\<newline>abc def ghi'', anchor = 9, head = 9\<rparr> = []
   \<and> selectWordIfNone \<lparr>doc = ''one\<newline>abc def ghi'', anchor = 9, head = 9\<rparr>
      = (\<lparr>doc = ''one\<newline>abc def ghi'', anchor = 8, head = 11\<rparr>,
         \<lparr>wselection = ''def'', wfrom = \<lparr>line = 1, ch = 4\<rparr>, wto = \<lparr>line = 1, ch = 7\<rparr>,
          wordSelected = True\<rparr>)
   \<and> wordStart ''abc def ghi'' 5 = 4 \<and> wordEnd ''abc def ghi'' 5 = 7"
proof -
  let ?ed = "\<lparr>doc = ''one\<newline>abc def ghi'', anchor = 9, head = 9\<rparr>"
  let ?ed' = "\<lparr>doc = ''one\<newline>abc def ghi'', anchor = 8, head = 11\<rparr>"
  let ?w = "\<lparr>wselection = ''def'', wfrom = \<lparr>line = 1, ch = 4\<rparr>, wto = \<lparr>line = 1, ch = 7\<rparr>,
          wordSelected = True\<rparr>"
  have h1: "getSelection ?ed = []" by code_simp
  have h2: "\<lparr>line = 1, ch = 5\<rparr> = getCursor ?ed" by code_simp
  have h3: "''abc def ghi'' = getLine ?ed (line \<lparr>line = 1, ch = 5\<rparr>)" by code_simp
  have h4: "4 = wordStart ''abc def ghi'' (nat (ch \<lparr>line = 1, ch = 5\<rparr>))" by code_simp
  have h5: "7 = wordEnd ''abc def ghi'' (nat (ch \<lparr>line = 1, ch = 5\<rparr>))" by code_simp
  have h6: "selectWordIfNone ?ed = (?ed', ?w)" by code_simp
  show ?thesis
    using locateWord_selects_the_word [OF h1 h2 h3 h4 h5 h6] h1 h6 h4 h5 by simp
qed

lemma indexFrom_Some:
  "indexFrom pat s = Some i \<Longrightarrow> i + length pat \<le> length s \<and> take (length pat) (drop i s) = pat"
proof (induction s arbitrary: i)
  case Nil
  then show ?case by (simp split: if_splits)
next
  case (Cons a s)
  show ?case
  proof (cases "prefix pat (a # s)")
    case True
    then have "i = 0" using Cons.prems by simp
    moreover obtain r where "a # s = pat @ r" using True by (auto simp: prefix_def)
    ultimately show ?thesis by (metis append_eq_conv_conj drop0 length_append le_add1 add_0)
  next
    case False
    then obtain j where "indexFrom pat s = Some j" "i = Suc j"
      using Cons.prems by auto
    then show ?thesis using Cons.IH by simp
  qed
qed

lemma indexOf_Some:
  assumes "indexOf s pat k = Some i"
  shows "min k (length s) \<le> i" and "i + length pat \<le> length s"
    and "take (length pat) (drop i s) = pat"
proof -
  obtain j where j: "indexFrom pat (drop (min k (length s)) s) = Some j" "i = min k (length s) + j"
    using assms by (auto simp: indexOf_def Let_def)
  show "min k (length s) \<le> i" using j by simp
  show "i + length pat \<le> length s" using indexFrom_Some [OF j(1)] j(2) by auto
  show "take (length pat) (drop i s) = pat"
    using indexFrom_Some [OF j(1)] j(2) by (simp add: add.commute)
qed

lemma len_open: "length ''<mark'' = 5" and len_close: "length ''</mark>'' = 7"
  by simp_all

lemma scanMark_unfold:
  "scanMark l cu k =
     (case indexOf l ''<mark'' k of
        None \<Rightarrow> None
      | Some openIdx \<Rightarrow>
          (case indexOf l ''</mark>'' openIdx of
             None \<Rightarrow> None
           | Some closeIdxRaw \<Rightarrow>
               if int openIdx \<le> cu \<and> cu \<le> int (closeIdxRaw + 7) then Some (openIdx, closeIdxRaw + 7)
               else scanMark l cu (closeIdxRaw + 7)))"
  by (subst scanMark.simps) (simp only: len_close Let_def)

lemma scanMark_find:
  "scanMark l cu k = find (\<lambda>(openStart, closeEnd). int openStart \<le> cu \<and> cu \<le> int closeEnd)
     (markCandidates l k)"
proof (induction l cu k rule: scanMark.induct)
  case (1 l cu k)
  show ?case
  proof (cases "indexOf l ''<mark'' k")
    case None
    then show ?thesis by (subst scanMark_unfold, subst markCandidates.simps) simp
  next
    case (Some oi)
    show ?thesis
    proof (cases "indexOf l ''</mark>'' oi")
      case None
      then show ?thesis using Some by (subst scanMark_unfold, subst markCandidates.simps) simp
    next
      case ci: (Some ci)
      show ?thesis
      proof (cases "int oi \<le> cu \<and> cu \<le> int (ci + 7)")
        case True
        then show ?thesis using Some ci
          by (subst scanMark_unfold, subst markCandidates.simps) simp
      next
        case False
        have "scanMark l cu (ci + length ''</mark>'') =
          find (\<lambda>(openStart, closeEnd). int openStart \<le> cu \<and> cu \<le> int closeEnd)
            (markCandidates l (ci + length ''</mark>''))"
          by (rule 1 [OF Some ci refl]) (simp only: len_close, rule False)
        then have "scanMark l cu (ci + 7) =
          find (\<lambda>(openStart, closeEnd). int openStart \<le> cu \<and> cu \<le> int closeEnd)
            (markCandidates l (ci + 7))"
          by (simp only: len_close)
        then show ?thesis using Some ci False
          by (subst scanMark_unfold, subst markCandidates.simps) auto
      qed
    qed
  qed
qed

lemma scanMark_Some:
  "scanMark l cu k = Some (openStart, closeEnd) \<Longrightarrow>
     int openStart \<le> cu \<and> cu \<le> int closeEnd \<and> openStart \<le> closeEnd \<and> closeEnd \<le> length l
     \<and> 7 \<le> closeEnd \<and> take 5 (drop openStart l) = ''<mark''
     \<and> take 7 (drop (closeEnd - 7) l) = ''</mark>''"
proof (induction l cu k rule: scanMark.induct)
  case (1 l cu k)
  from 1(2) obtain oi where oi: "indexOf l ''<mark'' k = Some oi"
    by (subst (asm) scanMark_unfold) (auto split: option.splits)
  from 1(2) oi obtain ci where ci: "indexOf l ''</mark>'' oi = Some ci"
    by (subst (asm) scanMark_unfold) (auto split: option.splits)
  have o: "take 5 (drop oi l) = ''<mark''"
    using indexOf_Some(3) [OF oi] by (simp only: len_open)
  have c: "oi \<le> ci" "ci + 7 \<le> length l" "take 7 (drop ci l) = ''</mark>''"
    using indexOf_Some [OF ci] indexOf_Some(2) [OF oi] by (simp_all only: len_close)
  show ?case
  proof (cases "int oi \<le> cu \<and> cu \<le> int (ci + 7)")
    case True
    then have "openStart = oi \<and> closeEnd = ci + 7"
      using 1(2) oi ci by (subst (asm) scanMark_unfold) simp
    then show ?thesis using True o c by simp
  next
    case False
    then have s: "scanMark l cu (ci + 7) = Some (openStart, closeEnd)"
      using 1(2) oi ci by (subst (asm) scanMark_unfold) auto
    show ?thesis
    proof (rule 1(1) [OF oi ci refl])
      show "\<not> (int oi \<le> cu \<and> cu \<le> int (ci + length ''</mark>''))"
        by (simp only: len_close, rule False)
      show "scanMark l cu (ci + length ''</mark>'') = Some (openStart, closeEnd)"
        by (simp only: len_close, rule s)
    qed
  qed
qed


text \<open>
  Claim C6. With no active selection, \<open>selectMarkRegionIfInside\<close> goes through the regions
  of the line of the cursor from left to right, each from the \<open><\<close> of a \<open><mark\<close> to the end
  of the first \<open></mark>\<close> behind it, looking for the next one behind the close of the last,
  and selects the first region whose bounds, both included, hold the column of the cursor.
  An open tag without a close behind it ends the search, and without such a region nothing
  is selected.
\<close>

theorem locateMarkRegion_selects_first_region:
  assumes "getSelection ed = []"
    and "cursor = getCursor ed"
    and "lineText = getLine ed (line cursor)"
    and "selectMarkRegionIfInside ed True = (ed', r)"
  shows "scanMark lineText (ch cursor) 0 =
      find (\<lambda>(openStart, closeEnd). int openStart \<le> ch cursor \<and> ch cursor \<le> int closeEnd)
        (markCandidates lineText 0)
    \<and> (\<forall>openStart closeEnd. scanMark lineText (ch cursor) 0 = Some (openStart, closeEnd) \<longrightarrow>
          take 5 (drop openStart lineText) = ''<mark''
          \<and> 7 \<le> closeEnd \<and> closeEnd \<le> length lineText
          \<and> take 7 (drop (closeEnd - 7) lineText) = ''</mark>''
          \<and> markSelectionMade r
          \<and> mfrom r = \<lparr>line = line cursor, ch = int openStart\<rparr>
          \<and> mto r = \<lparr>line = line cursor, ch = int closeEnd\<rparr>
          \<and> mselection r = take (closeEnd - openStart) (drop openStart lineText)
          \<and> getSelection ed' = mselection r \<and> doc ed' = doc ed)
    \<and> (scanMark lineText (ch cursor) 0 = None \<longrightarrow>
          ed' = ed \<and> \<not> markSelectionMade r \<and> mselection r = [])"
proof (intro conjI allI impI)
  show "scanMark lineText (ch cursor) 0 =
      find (\<lambda>(openStart, closeEnd). int openStart \<le> ch cursor \<and> ch cursor \<le> int closeEnd)
        (markCandidates lineText 0)"
    by (rule scanMark_find)
next
  assume "scanMark lineText (ch cursor) 0 = None"
  then have "selectMarkRegionIfInside ed True =
      (ed, \<lparr>mselection = [], markSelectionMade = False,
            mfrom = getCursorFrom ed, mto = getCursorTo ed\<rparr>)"
    using assms(1) by (simp add: selectMarkRegionIfInside_def Let_def assms(2,3))
  then have "ed' = ed \<and> \<not> markSelectionMade r \<and> mselection r = []"
    using assms(4) by auto
  then show "ed' = ed" and "\<not> markSelectionMade r" and "mselection r = []" by simp_all
next
  fix openStart closeEnd
  assume sc: "scanMark lineText (ch cursor) 0 = Some (openStart, closeEnd)"
  note p = scanMark_Some [OF sc]
  let ?ls = "splitLines (doc ed)"
  have cur: "offsetToPos (doc ed) (head ed) = cursor"
    by (simp add: assms(2) getCursor_def)
  have k: "0 \<le> line cursor" "nat (line cursor) < length ?ls"
    using cursor_in_line [OF cur] by simp_all
  have lt: "lineText = ?ls ! nat (line cursor)"
    using k by (auto simp: assms(3) getLine_def Let_def)
  define e where "e = setSelection ed \<lparr>line = line cursor, ch = int openStart\<rparr>
      \<lparr>line = line cursor, ch = int closeEnd\<rparr>"
  have le: "openStart \<le> closeEnd" "closeEnd \<le> length (?ls ! nat (line cursor))"
    using p by (simp_all add: lt)
  note sel = select_in_line [OF k(1) k(2) le e_def]
  have "selectMarkRegionIfInside ed True =
      (e, \<lparr>mselection = getSelection e, markSelectionMade = True,
           mfrom = getCursorFrom e, mto = getCursorTo e\<rparr>)"
    using assms(1) sc by (simp add: selectMarkRegionIfInside_def Let_def assms(2,3) e_def)
  then have ed': "ed' = e" and r: "r = \<lparr>mselection = getSelection e, markSelectionMade = True,
           mfrom = getCursorFrom e, mto = getCursorTo e\<rparr>"
    using assms(4) by simp_all
  show "take 5 (drop openStart lineText) = ''<mark''" "7 \<le> closeEnd" "closeEnd \<le> length lineText"
    "take 7 (drop (closeEnd - 7) lineText) = ''</mark>''"
    using p by simp_all
  show "markSelectionMade r" by (simp add: r)
  show "mfrom r = \<lparr>line = line cursor, ch = int openStart\<rparr>" by (simp add: r sel)
  show "mto r = \<lparr>line = line cursor, ch = int closeEnd\<rparr>" by (simp add: r sel)
  show "mselection r = take (closeEnd - openStart) (drop openStart lineText)"
    by (simp add: r sel lt)
  show "getSelection ed' = mselection r" by (simp add: r ed')
  show "doc ed' = doc ed" by (simp add: ed' sel)
qed

theorem locateMarkRegion_selects_first_region_witness:
  \<open>getSelection \<lparr>doc = ''x <mark class="hltr-a">hi</mark> y'', anchor = 10, head = 10\<rparr> = []
   \<and> scanMark ''x <mark class="hltr-a">hi</mark> y'' 10 0 = Some (2, 32)
   \<and> markCandidates ''x <mark class="hltr-a">hi</mark> y'' 0 = [(2, 32)]
   \<and> selectMarkRegionIfInside
        \<lparr>doc = ''x <mark class="hltr-a">hi</mark> y'', anchor = 10, head = 10\<rparr> True
      = (\<lparr>doc = ''x <mark class="hltr-a">hi</mark> y'', anchor = 2, head = 32\<rparr>,
         \<lparr>mselection = ''<mark class="hltr-a">hi</mark>'', markSelectionMade = True,
          mfrom = \<lparr>line = 0, ch = 2\<rparr>, mto = \<lparr>line = 0, ch = 32\<rparr>\<rparr>)\<close>
proof -
  let ?l = \<open>''x <mark class="hltr-a">hi</mark> y''\<close>
  let ?ed = "\<lparr>doc = ?l, anchor = 10, head = 10\<rparr>"
  let ?ed' = "\<lparr>doc = ?l, anchor = 2, head = 32\<rparr>"
  let ?r = \<open>\<lparr>mselection = ''<mark class="hltr-a">hi</mark>'', markSelectionMade = True,
          mfrom = \<lparr>line = 0, ch = 2\<rparr>, mto = \<lparr>line = 0, ch = 32\<rparr>\<rparr>\<close>
  have h1: "getSelection ?ed = []" by code_simp
  have h2: "\<lparr>line = 0, ch = 10\<rparr> = getCursor ?ed" by code_simp
  have h3: "?l = getLine ?ed (line \<lparr>line = 0, ch = 10\<rparr>)" by code_simp
  have h4: "selectMarkRegionIfInside ?ed True = (?ed', ?r)" by code_simp
  have s: "scanMark ?l 10 0 = Some (2, 32)" by code_simp
  have m: "markCandidates ?l 0 = [(2, 32)]" by code_simp
  show ?thesis
    using locateMarkRegion_selects_first_region [OF h1 h2 h3 h4] h1 h4 s m by simp
qed

section \<open>Erasing\<close>

lemma selectMark_doc: "doc (fst (selectMarkRegionIfInside ed b)) = doc ed"
  by (auto simp: selectMarkRegionIfInside_def Let_def setSelection_def split: option.splits)

lemma selectMark_from:
  "selectMarkRegionIfInside ed b = (ed1, r) \<Longrightarrow>
   mfrom r = getCursorFrom ed1 \<and> mto r = getCursorTo ed1"
  by (auto simp: selectMarkRegionIfInside_def Let_def split: option.splits if_splits)

lemma eraseHighlight_doc:
  assumes "selectMarkRegionIfInside ed True = (ed1, r)"
  shows "doc (eraseHighlight s ed) =
    take (min (selFrom ed1) (length (doc ed))) (doc ed)
    @ stripMarks (getRange ed1 (mfrom r) (mto r))
    @ drop (min (selTo ed1) (length (doc ed))) (doc ed)"
proof -
  have d: "doc ed1 = doc ed" using selectMark_doc [of ed True] assms by simp
  have f: "mfrom r = getCursorFrom ed1" "mto r = getCursorTo ed1"
    using selectMark_from [OF assms] by simp_all
  have le: "selFrom ed1 \<le> selTo ed1" by (simp add: selFrom_def selTo_def)
  have rr: "doc (replaceRange ed1 t (mfrom r) (mto r)) =
     take (min (selFrom ed1) (length (doc ed))) (doc ed) @ t @ drop (min (selTo ed1) (length (doc ed))) (doc ed)" for t
    using le by (simp add: replaceRange_def Let_def f getCursorFrom_def getCursorTo_def posToOffset_offsetToPos d max_def)
  show ?thesis
    by (simp add: eraseHighlight_def assms Let_def setSelection_def setCursor_def rr)
qed

lemma currentStr_eq:
  assumes "selectMarkRegionIfInside ed True = (ed1, r)"
  shows "currentStr ed = take (min (selTo ed1) (length (doc ed)) - min (selFrom ed1) (length (doc ed)))
     (drop (min (selFrom ed1) (length (doc ed))) (doc ed))"
proof -
  have d: "doc ed1 = doc ed" using selectMark_doc [of ed True] assms by simp
  have f: "mfrom r = getCursorFrom ed1" "mto r = getCursorTo ed1"
    using selectMark_from [OF assms] by simp_all
  show ?thesis
    by (simp add: currentStr_def assms getRange_def Let_def f getCursorFrom_def getCursorTo_def
        posToOffset_offsetToPos d)
qed

lemma eraseSpan_eq:
  assumes "selectMarkRegionIfInside ed True = (ed1, r)"
  shows "eraseSpan ed = (min (selFrom ed1) (length (doc ed)), min (selTo ed1) (length (doc ed)))"
proof -
  have d: "doc ed1 = doc ed" using selectMark_doc [of ed True] assms by simp
  have f: "mfrom r = getCursorFrom ed1" "mto r = getCursorTo ed1"
    using selectMark_from [OF assms] by simp_all
  show ?thesis
    by (simp add: eraseSpan_def assms Let_def f getCursorFrom_def getCursorTo_def
        posToOffset_offsetToPos d)
qed

lemma lazyTail_gt: "lazyTail t = Some n \<Longrightarrow> CHR ''>'' \<in> set t"
  by (induction t arbitrary: n rule: lazyTail.induct) (auto split: if_splits)

lemma replaceAll_matchOpen_id:
  "\<not> containsOpenTag lit s \<Longrightarrow> replaceAll (matchOpen lit) s = s"
proof (induction s)
  case Nil
  then show ?case by simp
next
  case (Cons c s)
  have "matchOpen lit (c # s) = None"
  proof (cases "matchOpen lit (c # s)")
    case None
    then show ?thesis .
  next
    case (Some n)
    then have "prefix lit (c # s)" and "lazyTail (drop (length lit) (c # s)) \<noteq> None"
      by (auto simp: matchOpen_def split: if_splits)
    then show ?thesis using Cons.prems lazyTail_gt [of "drop (length lit) (c # s)"]
      by auto
  qed
  then show ?case using Cons by simp
qed

lemma replaceAll_matchClose_id:
  "\<not> occurs ''</mark>'' s \<Longrightarrow> replaceAll matchClose s = s"
  by (induction s) (auto simp: matchClose_def)

lemma stripMarks_id:
  "\<not> containsOpenTag ''<mark style'' s \<Longrightarrow> \<not> containsOpenTag ''<mark class'' s
   \<Longrightarrow> \<not> occurs ''</mark>'' s \<Longrightarrow> stripMarks s = s"
  by (simp add: stripMarks_def replaceAll_matchOpen_id replaceAll_matchClose_id)

text \<open>
  Claim C5. Erasing a region whose text holds no opening mark tag, in the inline-style or in
  the class syntax, and no closing tag leaves the text of the buffer as it was: the three
  substitutions change nothing and the range is written back unchanged.
\<close>

theorem erase_without_markup_keeps_text:
  assumes "\<not> containsOpenTag ''<mark style'' (currentStr ed)"
    and "\<not> containsOpenTag ''<mark class'' (currentStr ed)"
    and "\<not> occurs ''</mark>'' (currentStr ed)"
  shows "doc (eraseHighlight s ed) = doc ed"
proof -
  obtain ed1 r where sel: "selectMarkRegionIfInside ed True = (ed1, r)"
    by (cases "selectMarkRegionIfInside ed True") auto
  have c: "currentStr ed = getRange ed1 (mfrom r) (mto r)"
    by (simp add: currentStr_def sel)
  have le: "selFrom ed1 \<le> selTo ed1" by (simp add: selFrom_def selTo_def)
  have "stripMarks (currentStr ed) = currentStr ed"
    using assms by (rule stripMarks_id)
  then have "doc (eraseHighlight s ed) =
    take (min (selFrom ed1) (length (doc ed))) (doc ed) @ currentStr ed
    @ drop (min (selTo ed1) (length (doc ed))) (doc ed)"
    using eraseHighlight_doc [OF sel, of s] c by simp
  also have "\<dots> = doc ed"
    unfolding currentStr_eq [OF sel] using le
    by (metis append_take_drop_id drop_take min.mono order_refl take_add le_add_diff_inverse
        append_assoc)
  finally show ?thesis .
qed

theorem erase_without_markup_keeps_text_witness:
  "\<not> containsOpenTag ''<mark style'' (currentStr \<lparr>doc = ''some plain text'', anchor = 5, head = 10\<rparr>)
   \<and> \<not> containsOpenTag ''<mark class'' (currentStr \<lparr>doc = ''some plain text'', anchor = 5, head = 10\<rparr>)
   \<and> \<not> occurs ''</mark>'' (currentStr \<lparr>doc = ''some plain text'', anchor = 5, head = 10\<rparr>)
   \<and> doc (eraseHighlight
        \<lparr>highlighterMethods = ''css-classes'', highlighters = [], highlighterOrder = [''a''],
         useTogglingBehavior = True\<rparr>
        \<lparr>doc = ''some plain text'', anchor = 5, head = 10\<rparr>) = ''some plain text''"
proof -
  let ?ed = "\<lparr>doc = ''some plain text'', anchor = 5, head = 10\<rparr>"
  have c: "currentStr ?ed = ''plain''" by code_simp
  show ?thesis
    using erase_without_markup_keeps_text [of ?ed] unfolding c by simp
qed

lemma length_splitLines: "length (splitLines s) = Suc (count_list s (CHR 0x0A))"
proof (induction s)
  case Nil
  then show ?case by simp
next
  case (Cons c s)
  then show ?case by (cases "splitLines s") auto
qed

lemma splitLines_break:
  "CHR 0x0A \<notin> set v \<Longrightarrow> splitLines (u @ CHR 0x0A # v) = splitLines u @ [v]"
  by (simp add: splitLines_append [of u] splitLines_no_break)

text \<open>
  Claim C4. In \<open>eraseHighlight\<close> with toggling enabled and a stripped text that is not
  empty, \<open>newTo\<close> is: on the line of \<open>from\<close>, at the column of \<open>from\<close> plus the length of
  the stripped text, when that text has no line break; otherwise on the line of \<open>from\<close>
  plus the number of line breaks, at the column that is the length of the segment behind the
  last break. For a stripped text of three lines this is the line of \<open>from\<close> plus two and
  the length of the third line. The selection that \<open>eraseHighlight\<close> leaves ends at this
  \<open>newTo\<close>.
\<close>

theorem erase_newTo:
  "(CHR 0x0A \<notin> set str \<longrightarrow>
      eraseNewTo from str = \<lparr>line = line from, ch = ch from + int (length str)\<rparr>)
   \<and> (CHR 0x0A \<notin> set v \<longrightarrow>
      eraseNewTo from (u @ CHR 0x0A # v) =
        \<lparr>line = line from + int (count_list (u @ CHR 0x0A # v) (CHR 0x0A)), ch = int (length v)\<rparr>)
   \<and> (CHR 0x0A \<notin> set l1 \<and> CHR 0x0A \<notin> set l2 \<and> CHR 0x0A \<notin> set l3 \<longrightarrow>
      eraseNewTo from (l1 @ CHR 0x0A # l2 @ CHR 0x0A # l3) =
        \<lparr>line = line from + 2, ch = int (length l3)\<rparr>)
   \<and> (useTogglingBehavior s \<and> stripMarks (currentStr ed) \<noteq> [] \<longrightarrow>
      head (eraseHighlight s ed) =
        posToOffset (doc (eraseHighlight s ed))
          (eraseNewTo (mfrom (snd (selectMarkRegionIfInside ed True))) (stripMarks (currentStr ed))))"
proof (intro conjI impI)
  assume "CHR 0x0A \<notin> set str"
  then show "eraseNewTo from str = \<lparr>line = line from, ch = ch from + int (length str)\<rparr>"
    by (simp add: eraseNewTo_def splitLines_no_break)
next
  assume v: "CHR 0x0A \<notin> set v"
  have "length (splitLines (u @ CHR 0x0A # v)) = Suc (count_list (u @ CHR 0x0A # v) (CHR 0x0A))"
    by (rule length_splitLines)
  moreover have "last (splitLines (u @ CHR 0x0A # v)) = v"
    using v by (simp add: splitLines_break)
  moreover have "0 < count_list (u @ CHR 0x0A # v) (CHR 0x0A)"
    by simp
  ultimately show "eraseNewTo from (u @ CHR 0x0A # v) =
      \<lparr>line = line from + int (count_list (u @ CHR 0x0A # v) (CHR 0x0A)), ch = int (length v)\<rparr>"
    by (simp add: eraseNewTo_def Let_def)
next
  assume a: "CHR 0x0A \<notin> set l1 \<and> CHR 0x0A \<notin> set l2 \<and> CHR 0x0A \<notin> set l3"
  then have "splitLines (l1 @ CHR 0x0A # l2 @ CHR 0x0A # l3) = [l1, l2, l3]"
    using splitLines_break [of l3 "l1 @ CHR 0x0A # l2"] splitLines_break [of l2 l1]
    by (simp add: splitLines_no_break)
  then show "eraseNewTo from (l1 @ CHR 0x0A # l2 @ CHR 0x0A # l3) =
      \<lparr>line = line from + 2, ch = int (length l3)\<rparr>"
    by (simp add: eraseNewTo_def)
next
  assume a: "useTogglingBehavior s \<and> stripMarks (currentStr ed) \<noteq> []"
  obtain ed1 r where sel: "selectMarkRegionIfInside ed True = (ed1, r)"
    by (cases "selectMarkRegionIfInside ed True") auto
  have c: "currentStr ed = getRange ed1 (mfrom r) (mto r)"
    by (simp add: currentStr_def sel)
  show "head (eraseHighlight s ed) =
        posToOffset (doc (eraseHighlight s ed))
          (eraseNewTo (mfrom (snd (selectMarkRegionIfInside ed True))) (stripMarks (currentStr ed)))"
    using a unfolding c
    by (simp add: eraseHighlight_def sel Let_def setSelection_def setCursor_def)
qed

theorem erase_newTo_witness:
  \<open>eraseNewTo \<lparr>line = 3, ch = 4\<rparr> ''abc'' = \<lparr>line = 3, ch = 7\<rparr>
   \<and> eraseNewTo \<lparr>line = 3, ch = 4\<rparr> ''ab\<newline>cde\<newline>fghi'' = \<lparr>line = 5, ch = 4\<rparr>
   \<and> head (eraseHighlight
        \<lparr>highlighterMethods = ''css-classes'', highlighters = [], highlighterOrder = [''a''],
         useTogglingBehavior = True\<rparr>
        \<lparr>doc = ''x <mark class="a">ab\<newline>cde\<newline>fghi</mark> y'', anchor = 2, head = 36\<rparr>) = 13\<close>
proof -
  let ?s = "\<lparr>highlighterMethods = ''css-classes'', highlighters = [], highlighterOrder = [''a''],
         useTogglingBehavior = True\<rparr>"
  let ?ed = \<open>\<lparr>doc = ''x <mark class="a">ab\<newline>cde\<newline>fghi</mark> y'', anchor = 2, head = 36\<rparr>\<close>
  let ?from = "\<lparr>line = 3, ch = 4\<rparr>"
  have c: "stripMarks (currentStr ?ed) = ''ab\<newline>cde\<newline>fghi''" by code_simp
  have f: "mfrom (snd (selectMarkRegionIfInside ?ed True)) = \<lparr>line = 0, ch = 2\<rparr>" by code_simp
  have d: "doc (eraseHighlight ?s ?ed) = ''x ab\<newline>cde\<newline>fghi y''" by code_simp
  have p: "posToOffset ''x ab\<newline>cde\<newline>fghi y'' \<lparr>line = 2, ch = 4\<rparr> = 13" by code_simp
  have e: "eraseNewTo \<lparr>line = 0, ch = 2\<rparr> ''ab\<newline>cde\<newline>fghi'' = \<lparr>line = 2, ch = 4\<rparr>"
    by code_simp
  from erase_newTo [of "''abc''" ?from "''fghi''" "''ab\<newline>cde''" "''ab''" "''cde''" "''fghi''" ?s ?ed]
  show ?thesis unfolding c f d e using p by simp
qed

text \<open>
  Claim C10. \<open>eraseHighlight\<close> changes the text only inside the span from \<open>from\<close> to
  \<open>to\<close> that the locator returns: with \<open>a\<close> and \<open>b\<close> the offsets of the span, the text before
  \<open>a\<close> and the text from \<open>b\<close> on are kept, and the span is replaced by its stripped text.
\<close>

theorem erase_changes_only_the_span:
  assumes "eraseSpan ed = (a, b)"
  shows "a \<le> b \<and> b \<le> length (doc ed)
    \<and> currentStr ed = take (b - a) (drop a (doc ed))
    \<and> doc (eraseHighlight s ed) = take a (doc ed) @ stripMarks (currentStr ed) @ drop b (doc ed)
    \<and> take a (doc (eraseHighlight s ed)) = take a (doc ed)
    \<and> drop (a + length (stripMarks (currentStr ed))) (doc (eraseHighlight s ed)) = drop b (doc ed)"
proof -
  obtain ed1 r where sel: "selectMarkRegionIfInside ed True = (ed1, r)"
    by (cases "selectMarkRegionIfInside ed True") auto
  have a: "a = min (selFrom ed1) (length (doc ed))" and b: "b = min (selTo ed1) (length (doc ed))"
    using eraseSpan_eq [OF sel] assms by simp_all
  have le: "a \<le> b" "b \<le> length (doc ed)"
    unfolding a b by (simp_all add: selFrom_def selTo_def min.coboundedI1)
  have c: "currentStr ed = getRange ed1 (mfrom r) (mto r)"
    by (simp add: currentStr_def sel)
  have d: "doc (eraseHighlight s ed) = take a (doc ed) @ stripMarks (currentStr ed) @ drop b (doc ed)"
    using eraseHighlight_doc [OF sel, of s] by (simp add: a b c)
  have la: "length (take a (doc ed)) = a" using le by simp
  show ?thesis
    using le currentStr_eq [OF sel] d la by (simp add: a [symmetric] b [symmetric])
qed

theorem erase_changes_only_the_span_witness:
  \<open>eraseSpan \<lparr>doc = ''x <mark class="hltr-a">hi</mark> y'', anchor = 10, head = 10\<rparr> = (2, 32)
   \<and> doc (eraseHighlight
        \<lparr>highlighterMethods = ''css-classes'', highlighters = [], highlighterOrder = [''a''],
         useTogglingBehavior = False\<rparr>
        \<lparr>doc = ''x <mark class="hltr-a">hi</mark> y'', anchor = 10, head = 10\<rparr>) = ''x hi y''\<close>
proof -
  let ?ed = \<open>\<lparr>doc = ''x <mark class="hltr-a">hi</mark> y'', anchor = 10, head = 10\<rparr>\<close>
  have e: "eraseSpan ?ed = (2, 32)" by code_simp
  have c: "stripMarks (currentStr ?ed) = ''hi''" by code_simp
  show ?thesis
    using erase_changes_only_the_span [OF e] e unfolding c by simp
qed

section \<open>Applying a template\<close>

lemma selectWord_doc: "doc (fst (selectWordIfNone ed)) = doc ed"
  by (simp add: selectWordIfNone_def Let_def setSelection_def)

text \<open>
  Claim C3, as amended. With toggling disabled, \<open>applyCommand\<close> takes the merge branch
  exactly when the text read behind the selection, up to the column of \<open>to\<close> plus the length
  of the suffix, is the suffix without its trailing whitespace, the last character
  (whitespace or not) of the text read before the selection, from the column of \<open>from\<close> minus
  the length of the prefix, is the last character of the prefix without its leading
  whitespace, and the selected text is not empty. The branch replaces the range from the
  start of the text before to the end of the text behind by the selected text alone, puts
  the cursor at the column of \<open>to\<close> plus the negated cursor offset plus 8, and inserts neither
  prefix nor suffix. Otherwise prefix, selected text and suffix replace the selection.
\<close>

theorem merge_branch:
  assumes "\<not> useTogglingBehavior st"
    and "selectWordIfNone ed = (ed1, w)"
    and "prefix' = prefix_cp cmd"
    and "suffix' = (if suffix_cp cmd = [] then prefix' else suffix_cp cmd)"
    and "a = posToOffset (doc ed) (preStart cmd (wfrom w))"
    and "b = posToOffset (doc ed) (sufEnd cmd suffix' (wfrom w) (wto w))"
  shows "(mergeTaken cmd ed1 w \<longrightarrow>
        applyCommand st cmd ed =
          setCursor
            (replaceRange ed1 (wselection w) (preStart cmd (wfrom w))
               (sufEnd cmd suffix' (wfrom w) (wto w)))
            \<lparr>line = line (wfrom w) - line_cp cmd,
             ch = ch (wto w) + (- cursorPos (wselection w) prefix' suffix' + 8)\<rparr>
        \<and> doc (applyCommand st cmd ed) = take a (doc ed) @ wselection w @ drop (max a b) (doc ed))
    \<and> (\<not> mergeTaken cmd ed1 w \<longrightarrow>
        applyCommand st cmd ed =
          setCursor (replaceSelection ed1 (prefix' @ wselection w @ suffix'))
            \<lparr>line = line (wfrom w) + line_cp cmd,
             ch = ch (wto w) + cursorPos (wselection w) prefix' suffix'\<rparr>
        \<and> doc (applyCommand st cmd ed) =
            take (selFrom ed1) (doc ed) @ prefix' @ wselection w @ suffix'
            @ drop (selTo ed1) (doc ed))"
proof -
  have d: "doc ed1 = doc ed" using selectWord_doc [of ed] assms(2) by simp
  have ap: "applyCommand st cmd ed = mergeApply st cmd ed1 w"
    using assms(1,2) by (simp add: applyCommand_def)
  show ?thesis
  proof (cases "mergeTaken cmd ed1 w")
    case True
    then have m: "mergeApply st cmd ed1 w =
          setCursor
            (replaceRange ed1 (wselection w) (preStart cmd (wfrom w))
               (sufEnd cmd suffix' (wfrom w) (wto w)))
            \<lparr>line = line (wfrom w) - line_cp cmd,
             ch = ch (wto w) + (- cursorPos (wselection w) prefix' suffix' + 8)\<rparr>"
      unfolding mergeTaken_def mergeApply_def Let_def assms(3,4) by simp
    show ?thesis
      using True unfolding ap m
      by (simp add: setCursor_def replaceRange_def Let_def d assms(5,6))
  next
    case False
    then have m: "mergeApply st cmd ed1 w =
          setCursor (replaceSelection ed1 (prefix' @ wselection w @ suffix'))
            \<lparr>line = line (wfrom w) + line_cp cmd,
             ch = ch (wto w) + cursorPos (wselection w) prefix' suffix'\<rparr>"
      unfolding mergeTaken_def mergeApply_def Let_def assms(3,4) using assms(1) by auto
    show ?thesis
      using False unfolding ap m
      by (simp add: setCursor_def replaceSelection_def Let_def d)
  qed
qed

theorem merge_branch_witness:
  \<open>mergeTaken
      \<lparr>char_cp = 34, line_cp = 0, prefix_cp = ''<mark class="hltr-a">'', suffix_cp = ''</mark>''\<rparr>
      \<lparr>doc = ''x <mark class="hltr-a">hi</mark> y'', anchor = 23, head = 25\<rparr>
      \<lparr>wselection = ''hi'', wfrom = \<lparr>line = 0, ch = 23\<rparr>, wto = \<lparr>line = 0, ch = 25\<rparr>,
       wordSelected = False\<rparr>
   \<and> applyCommand
      \<lparr>highlighterMethods = ''css-classes'', highlighters = [], highlighterOrder = [''a''],
       useTogglingBehavior = False\<rparr>
      \<lparr>char_cp = 34, line_cp = 0, prefix_cp = ''<mark class="hltr-a">'', suffix_cp = ''</mark>''\<rparr>
      \<lparr>doc = ''x <mark class="hltr-a">hi</mark> y'', anchor = 23, head = 25\<rparr>
     = \<lparr>doc = ''x hi y'', anchor = 4, head = 4\<rparr>\<close>
proof -
  let ?st = "\<lparr>highlighterMethods = ''css-classes'', highlighters = [], highlighterOrder = [''a''],
       useTogglingBehavior = False\<rparr>"
  let ?cmd = \<open>\<lparr>char_cp = 34, line_cp = 0, prefix_cp = ''<mark class="hltr-a">'', suffix_cp = ''</mark>''\<rparr>\<close>
  let ?ed = \<open>\<lparr>doc = ''x <mark class="hltr-a">hi</mark> y'', anchor = 23, head = 25\<rparr>\<close>
  let ?w = "\<lparr>wselection = ''hi'', wfrom = \<lparr>line = 0, ch = 23\<rparr>, wto = \<lparr>line = 0, ch = 25\<rparr>,
       wordSelected = False\<rparr>"
  have h1: "\<not> useTogglingBehavior ?st" by simp
  have h2: "selectWordIfNone ?ed = (?ed, ?w)" by code_simp
  have m: "mergeTaken ?cmd ?ed ?w" by code_simp
  have r: \<open>setCursor
            (replaceRange ?ed (wselection ?w) (preStart ?cmd (wfrom ?w))
               (sufEnd ?cmd (if suffix_cp ?cmd = [] then prefix_cp ?cmd else suffix_cp ?cmd)
                  (wfrom ?w) (wto ?w)))
            \<lparr>line = line (wfrom ?w) - line_cp ?cmd,
             ch = ch (wto ?w) + (- cursorPos (wselection ?w) (prefix_cp ?cmd)
                (if suffix_cp ?cmd = [] then prefix_cp ?cmd else suffix_cp ?cmd) + 8)\<rparr>
       = \<lparr>doc = ''x hi y'', anchor = 4, head = 4\<rparr>\<close>
    by code_simp
  from merge_branch [OF h1 h2 refl refl refl refl, of ?cmd] m
  have "applyCommand ?st ?cmd ?ed = setCursor
            (replaceRange ?ed (wselection ?w) (preStart ?cmd (wfrom ?w))
               (sufEnd ?cmd (if suffix_cp ?cmd = [] then prefix_cp ?cmd else suffix_cp ?cmd)
                  (wfrom ?w) (wto ?w)))
            \<lparr>line = line (wfrom ?w) - line_cp ?cmd,
             ch = ch (wto ?w) + (- cursorPos (wselection ?w) (prefix_cp ?cmd)
                (if suffix_cp ?cmd = [] then prefix_cp ?cmd else suffix_cp ?cmd) + 8)\<rparr>"
    by blast
  then show ?thesis using m r by simp
qed

theorem merge_last_character_counterexample:
  \<open>getSelection \<lparr>doc = ''mark class="hltr-a"> hi</mark>'', anchor = 21, head = 23\<rparr> = ''hi''
   \<and> getRange \<lparr>doc = ''mark class="hltr-a"> hi</mark>'', anchor = 21, head = 23\<rparr>
        \<lparr>line = 0, ch = 23\<rparr> \<lparr>line = 0, ch = 23 + 7\<rparr> = trimEnd ''</mark>''
   \<and> getRange \<lparr>doc = ''mark class="hltr-a"> hi</mark>'', anchor = 21, head = 23\<rparr>
        \<lparr>line = 0, ch = 21 - 21\<rparr> \<lparr>line = 0, ch = 21\<rparr> = ''mark class="hltr-a"> ''
   \<and> sliceLast (trimEnd ''mark class="hltr-a"> '') = sliceLast (trimStart ''<mark class="hltr-a">'')
   \<and> doc (applyCommand
        \<lparr>highlighterMethods = ''css-classes'', highlighters = [], highlighterOrder = [''a''],
         useTogglingBehavior = False\<rparr>
        \<lparr>char_cp = 34, line_cp = 0, prefix_cp = ''<mark class="hltr-a">'',
         suffix_cp = ''</mark>''\<rparr>
        \<lparr>doc = ''mark class="hltr-a"> hi</mark>'', anchor = 21, head = 23\<rparr>)
     = ''mark class="hltr-a"> <mark class="hltr-a">hi</mark></mark>''\<close>
  by code_simp

lemma hd_splitLines_append:
  "CHR 0x0A \<notin> set s \<Longrightarrow> splitLines (s @ t) = (s @ hd (splitLines t)) # tl (splitLines t)"
  by (simp add: splitLines_append [of s] splitLines_no_break)

lemma offsetToPos_prefix:
  "offsetToPos (pre @ x) (length pre) =
     \<lparr>line = int (length (splitLines pre)) - 1, ch = int (length (last (splitLines pre)))\<rparr>"
  by (simp add: offsetToPos_def Let_def)

lemma posToOffset_shift:
  assumes "CHR 0x0A \<notin> set s" "k \<le> length s"
  shows "posToOffset (pre @ s @ post)
      \<lparr>line = int (length (splitLines pre)) - 1,
       ch = int (length (last (splitLines pre))) + int k\<rparr> = length pre + k"
proof -
  define la where "la = splitLines pre"
  define d where "d = pre @ s @ post"
  have la: "la \<noteq> []" by (simp add: la_def)
  have sp: "splitLines d =
      butlast la @ [last la @ s @ hd (splitLines post)] @ tl (splitLines post)"
    unfolding d_def la_def
    by (simp add: splitLines_append [of pre] hd_splitLines_append [OF assms(1)])
  have st: "lineStart (splitLines d) (length la - 1) = lineStart la (length la - 1)"
    unfolding sp using la by (simp add: lineStart_def butlast_conv_take)
  have nth: "splitLines d ! (length la - 1) = last la @ s @ hd (splitLines post)"
    unfolding sp by (simp add: nth_append)
  have tot: "lineStart la (length la - 1) + length (last la) = length pre"
    unfolding la_def by (rule lineStart_last)
  have len: "length la \<le> length (splitLines d)"
    unfolding sp using la by (cases "splitLines post") auto
  have l: "nat (int (length la) - 1) = length la - 1" by (simp add: nat_diff_distrib')
  have ge: "(0::int) \<le> int (length la) - 1" using la by (cases la) auto
  have lt: "length la - 1 < length (splitLines d)" using len la by (cases la) auto
  have "posToOffset d \<lparr>line = int (length la) - 1, ch = int (length (last la)) + int k\<rparr>
      = lineStart (splitLines d) (length la - 1)
        + min (length (last la) + k) (length (splitLines d ! (length la - 1)))"
    using posToOffset_inside [of "\<lparr>line = int (length la) - 1, ch = int (length (last la)) + int k\<rparr>" d]
      ge lt by (simp add: l nat_add_distrib)
  also have "\<dots> = lineStart la (length la - 1) + (length (last la) + k)"
    using assms(2) st nth by simp
  also have "\<dots> = length pre + k" using tot by simp
  finally show ?thesis by (simp add: la_def d_def)
qed

lemma offsetToPos_shift:
  assumes "CHR 0x0A \<notin> set s"
  shows "offsetToPos (pre @ s @ post) (length pre + length s) =
      \<lparr>line = int (length (splitLines pre)) - 1,
       ch = int (length (last (splitLines pre))) + int (length s)\<rparr>"
proof -
  have "take (length pre + length s) (pre @ s @ post) = pre @ s" by simp
  moreover have "splitLines (pre @ s) = butlast (splitLines pre) @ [last (splitLines pre) @ s]"
    using assms by (simp add: splitLines_append [of pre] splitLines_no_break)
  ultimately show ?thesis by (simp add: offsetToPos_def Let_def)
qed

lemma selectWord_result:
  "selectWordIfNone ed = (ed1, w) \<Longrightarrow>
     wselection w = getSelection ed1 \<and> wfrom w = getCursorFrom ed1 \<and> wto w = getCursorTo ed1"
  by (auto simp: selectWordIfNone_def Let_def split: if_splits)

text \<open>Replacing the selection by a text of one line and selecting it from \<open>from\<close>.\<close>

lemma reselect_inserted:
  assumes a: "selFrom e \<le> length (doc e)"
    and s: "CHR 0x0A \<notin> set s"
    and r: "r = setSelection (replaceSelection e s) (getCursorFrom e)
        \<lparr>line = line (getCursorFrom e), ch = ch (getCursorFrom e) + int (length s)\<rparr>"
  shows "doc r = take (selFrom e) (doc e) @ s @ drop (selTo e) (doc e)"
    and "anchor r = selFrom e" and "head r = selFrom e + length s"
proof -
  let ?pre = "take (selFrom e) (doc e)"
  let ?post = "drop (selTo e) (doc e)"
  have lp: "length ?pre = selFrom e" using a by simp
  have f: "getCursorFrom e =
      \<lparr>line = int (length (splitLines ?pre)) - 1, ch = int (length (last (splitLines ?pre)))\<rparr>"
    by (simp add: getCursorFrom_def offsetToPos_def Let_def)
  show d: "doc r = ?pre @ s @ ?post"
    by (simp add: r setSelection_def replaceSelection_def Let_def)
  have d2: "doc (replaceSelection e s) = ?pre @ s @ ?post"
    by (simp add: replaceSelection_def Let_def)
  show "anchor r = selFrom e"
    using posToOffset_shift [OF s, of 0 ?pre ?post] lp
    by (simp add: r setSelection_def d2 f)
  show "head r = selFrom e + length s"
    using posToOffset_shift [OF s, of "length s" ?pre ?post] lp
    by (simp add: r setSelection_def d2 f)
qed


text \<open>
  Claim C2, as amended. With toggling enabled, whenever the text that \<open>selectWordIfNone\<close>
  returns (the selection, or without one the word around the cursor, bounded by spaces, and
  not the mark region around it) is not empty and holds an opening mark tag,
  \<open>applyCommand\<close> replaces it by its stripped form, inserts no prefix and no suffix, and sets
  the selection from \<open>from\<close> to the column of \<open>from\<close> plus the length of the stripped text on
  the same line. When the stripped text has no line break, this selects exactly the
  stripped text.
\<close>

theorem toggle_strips_located_text:
  assumes "useTogglingBehavior st"
    and "selectWordIfNone ed = (ed1, w)"
    and "wselection w \<noteq> []"
    and "testOpenMark (wselection w)"
    and "stripped = stripMarks (wselection w)"
    and "newTo = \<lparr>line = line (wfrom w), ch = ch (wfrom w) + int (length stripped)\<rparr>"
  shows "applyCommand st cmd ed = setSelection (replaceSelection ed1 stripped) (wfrom w) newTo
    \<and> doc (applyCommand st cmd ed)
        = take (selFrom ed1) (doc ed) @ stripped @ drop (selTo ed1) (doc ed)
    \<and> (CHR 0x0A \<notin> set stripped \<longrightarrow>
          getSelection (applyCommand st cmd ed) = stripped
          \<and> getCursorFrom (applyCommand st cmd ed) = wfrom w
          \<and> getCursorTo (applyCommand st cmd ed) = newTo)"
proof -
  let ?r = "setSelection (replaceSelection ed1 stripped) (wfrom w) newTo"
  let ?pre = "take (selFrom ed1) (doc ed1)"
  let ?post = "drop (selTo ed1) (doc ed1)"
  have d: "doc ed1 = doc ed" using selectWord_doc [of ed] assms(2) by simp
  note w = selectWord_result [OF assms(2)]
  have ap: "applyCommand st cmd ed = ?r"
    using assms(1,3,4)
    by (simp add: applyCommand_def assms(2) toggleApply_def Let_def assms(5,6))
  have dr: "doc ?r = ?pre @ stripped @ ?post"
    by (simp add: setSelection_def replaceSelection_def Let_def)
  have a: "selFrom ed1 \<le> length (doc ed1)"
  proof (rule ccontr)
    assume "\<not> selFrom ed1 \<le> length (doc ed1)"
    then have "getSelection ed1 = []" by (simp add: getSelection_def)
    then show False using assms(3) w by simp
  qed
  have lp: "length ?pre = selFrom ed1" using a by simp
  have sel: "getSelection ?r = stripped \<and> getCursorFrom ?r = wfrom w \<and> getCursorTo ?r = newTo"
    if nb: "CHR 0x0A \<notin> set stripped"
  proof -
    define r where "r = ?r"
    have r: "r = setSelection (replaceSelection ed1 stripped) (getCursorFrom ed1)
        \<lparr>line = line (getCursorFrom ed1), ch = ch (getCursorFrom ed1) + int (length stripped)\<rparr>"
      using w by (simp add: assms(6) r_def)
    note rs = reselect_inserted [OF a nb r]
    have f: "selFrom r = length ?pre" and t: "selTo r = length ?pre + length stripped"
      using rs(2,3) lp by (simp_all add: selFrom_def selTo_def)
    have g: "getSelection r = stripped"
      unfolding getSelection_def f t rs(1) by simp
    have p: "wfrom w = \<lparr>line = int (length (splitLines ?pre)) - 1,
        ch = int (length (last (splitLines ?pre)))\<rparr>"
      using w by (simp add: getCursorFrom_def offsetToPos_def Let_def)
    have cf: "getCursorFrom r = wfrom w"
      unfolding getCursorFrom_def f rs(1) p by (rule offsetToPos_prefix)
    have "getCursorTo r = \<lparr>line = int (length (splitLines ?pre)) - 1,
        ch = int (length (last (splitLines ?pre))) + int (length stripped)\<rparr>"
      unfolding getCursorTo_def t rs(1) by (rule offsetToPos_shift [OF nb])
    then have ct: "getCursorTo r = newTo"
      by (simp add: assms(6) p)
    show ?thesis using g cf ct by (simp add: r_def)
  qed
  show ?thesis
    unfolding ap using dr sel by (simp add: d)
qed

theorem toggle_strips_located_text_witness:
  \<open>testOpenMark ''<mark class="hltr-a">hi</mark>''
   \<and> applyCommand
      \<lparr>highlighterMethods = ''css-classes'', highlighters = [], highlighterOrder = [''a''],
       useTogglingBehavior = True\<rparr>
      \<lparr>char_cp = 34, line_cp = 0, prefix_cp = ''<mark class="hltr-a">'', suffix_cp = ''</mark>''\<rparr>
      \<lparr>doc = ''x <mark class="hltr-a">hi</mark> y'', anchor = 2, head = 32\<rparr>
     = \<lparr>doc = ''x hi y'', anchor = 2, head = 4\<rparr>
   \<and> getSelection (applyCommand
      \<lparr>highlighterMethods = ''css-classes'', highlighters = [], highlighterOrder = [''a''],
       useTogglingBehavior = True\<rparr>
      \<lparr>char_cp = 34, line_cp = 0, prefix_cp = ''<mark class="hltr-a">'', suffix_cp = ''</mark>''\<rparr>
      \<lparr>doc = ''x <mark class="hltr-a">hi</mark> y'', anchor = 2, head = 32\<rparr>) = ''hi''\<close>
proof -
  let ?st = "\<lparr>highlighterMethods = ''css-classes'', highlighters = [], highlighterOrder = [''a''],
       useTogglingBehavior = True\<rparr>"
  let ?cmd = \<open>\<lparr>char_cp = 34, line_cp = 0, prefix_cp = ''<mark class="hltr-a">'', suffix_cp = ''</mark>''\<rparr>\<close>
  let ?ed = \<open>\<lparr>doc = ''x <mark class="hltr-a">hi</mark> y'', anchor = 2, head = 32\<rparr>\<close>
  let ?w = \<open>\<lparr>wselection = ''<mark class="hltr-a">hi</mark>'', wfrom = \<lparr>line = 0, ch = 2\<rparr>,
       wto = \<lparr>line = 0, ch = 32\<rparr>, wordSelected = False\<rparr>\<close>
  have h1: "useTogglingBehavior ?st" by simp
  have h2: "selectWordIfNone ?ed = (?ed, ?w)" by code_simp
  have h3: "wselection ?w \<noteq> []" by simp
  have h4: "testOpenMark (wselection ?w)" by code_simp
  have h5: "''hi'' = stripMarks (wselection ?w)" by code_simp
  have h6: "\<lparr>line = 0, ch = 4\<rparr> = \<lparr>line = line (wfrom ?w), ch = ch (wfrom ?w) + int (length ''hi'')\<rparr>"
    by simp
  have r: "setSelection (replaceSelection ?ed ''hi'') (wfrom ?w) \<lparr>line = 0, ch = 4\<rparr>
     = \<lparr>doc = ''x hi y'', anchor = 2, head = 4\<rparr>"
    by code_simp
  have g: "getSelection \<lparr>doc = ''x hi y'', anchor = 2, head = 4\<rparr> = ''hi''" by code_simp
  have "applyCommand ?st ?cmd ?ed = \<lparr>doc = ''x hi y'', anchor = 2, head = 4\<rparr>"
    using toggle_strips_located_text [OF h1 h2 h3 h4 h5 h6, of ?cmd] r by simp
  then show ?thesis using h4 g by simp
qed

theorem toggle_inside_markup_counterexample:
  \<open>getSelection \<lparr>doc = ''x <mark class="hltr-a">hi</mark> y'', anchor = 24, head = 24\<rparr> = []
   \<and> scanMark ''x <mark class="hltr-a">hi</mark> y'' 24 0 = Some (2, 32)
   \<and> wselection (snd (selectWordIfNone
        \<lparr>doc = ''x <mark class="hltr-a">hi</mark> y'', anchor = 24, head = 24\<rparr>))
      = ''class="hltr-a">hi</mark>''
   \<and> applyCommand
      \<lparr>highlighterMethods = ''css-classes'', highlighters = [], highlighterOrder = [''a''],
       useTogglingBehavior = True\<rparr>
      \<lparr>char_cp = 34, line_cp = 0, prefix_cp = ''<mark class="hltr-a">'', suffix_cp = ''</mark>''\<rparr>
      \<lparr>doc = ''x <mark class="hltr-a">hi</mark> y'', anchor = 24, head = 24\<rparr>
     = \<lparr>doc = ''x <mark <mark class="hltr-a">class="hltr-a">hi</mark></mark> y'',
        anchor = 29, head = 29\<rparr>\<close>
  by code_simp

section \<open>Stripping what a template inserted\<close>

lemma replaceAll_none:
  "(\<And>t. suffix t s \<Longrightarrow> t \<noteq> [] \<Longrightarrow> m t = None) \<Longrightarrow> replaceAll m s = s"
proof (induction s)
  case Nil
  then show ?case by simp
next
  case (Cons c s)
  have "m (c # s) = None" by (rule Cons.prems) simp_all
  moreover have "replaceAll m s = s"
    by (rule Cons.IH) (simp add: Cons.prems suffix_Cons)
  ultimately show ?case by simp
qed

lemma replaceAll_keep:
  "(\<And>t. suffix t u \<Longrightarrow> t \<noteq> [] \<Longrightarrow> m (t @ v) = None) \<Longrightarrow>
   replaceAll m (u @ v) = u @ replaceAll m v"
proof (induction u)
  case Nil
  then show ?case by simp
next
  case (Cons c u)
  have "m ((c # u) @ v) = None" by (rule Cons.prems) simp_all
  moreover have "replaceAll m (u @ v) = u @ replaceAll m v"
    by (rule Cons.IH) (simp add: Cons.prems suffix_Cons)
  ultimately show ?case by simp
qed

lemma occurs_suffix: "suffix t s \<Longrightarrow> prefix lit t \<Longrightarrow> occurs lit s"
proof (induction s)
  case Nil
  then show ?case by simp
next
  case (Cons c s)
  then show ?case by (auto simp: suffix_Cons)
qed

text \<open>A literal with a single \<open><\<close>, at its head, cannot begin inside a text that does not
  hold it and end inside a following text that begins with \<open><\<close>.\<close>

lemma no_straddle:
  assumes lit: "lit = CHR ''<'' # l'" "CHR ''<'' \<notin> set l'"
    and no: "\<not> occurs lit txt"
    and t: "suffix t txt" "t \<noteq> []"
  shows "\<not> prefix lit (t @ CHR ''<'' # v)"
proof
  assume "prefix lit (t @ CHR ''<'' # v)"
  then have "prefix lit t \<or> (\<exists>us. lit = t @ us \<and> prefix us (CHR ''<'' # v))"
    by (simp add: prefix_append)
  then show False
  proof
    assume "prefix lit t"
    then show ?thesis using occurs_suffix [OF t(1)] no by simp
  next
    assume "\<exists>us. lit = t @ us \<and> prefix us (CHR ''<'' # v)"
    then obtain us where us: "lit = t @ us" "prefix us (CHR ''<'' # v)" by blast
    show ?thesis
    proof (cases us)
      case Nil
      then have "prefix lit t" using us(1) by simp
      then show ?thesis using occurs_suffix [OF t(1)] no by simp
    next
      case (Cons y us')
      then have y: "y = CHR ''<''" using us(2) by simp
      obtain x t' where t': "t = x # t'" using t(2) by (cases t) auto
      have "l' = t' @ CHR ''<'' # us'" using us(1) lit(1) t' Cons y by simp
      then show ?thesis using lit(2) by simp
    qed
  qed
qed

lemma matchOpen_prefix: "matchOpen lit t \<noteq> None \<Longrightarrow> prefix lit t"
  by (simp add: matchOpen_def split: if_splits)

lemma matchClose_prefix: "matchClose t \<noteq> None \<Longrightarrow> prefix ''</mark>'' t"
  by (simp add: matchClose_def split: if_splits)

lemma open_none_in_text_close:
  assumes lit: "lit = ''<mark style'' \<or> lit = ''<mark class''"
    and no: "\<not> occurs lit txt"
    and t: "suffix t (txt @ ''</mark>'')" "t \<noteq> []"
  shows "matchOpen lit t = None"
proof (rule ccontr)
  assume "matchOpen lit t \<noteq> None"
  then have p: "prefix lit t" by (rule matchOpen_prefix)
  obtain l' where l': "lit = CHR ''<'' # l'" "CHR ''<'' \<notin> set l'"
    using lit by (cases "lit = ''<mark style''") simp_all
  have short: False if "suffix t ''</mark>''"
  proof -
    have "length t \<le> length ''</mark>''" using that by (rule suffix_length_le)
    then have "length t \<le> 7" by simp
    moreover have "length lit = 11" using lit by (cases "lit = ''<mark style''") simp_all
    ultimately show False using prefix_length_le [OF p] by simp
  qed
  from t(1) have "suffix t ''</mark>'' \<or> (\<exists>t'. t = t' @ ''</mark>'' \<and> suffix t' txt)"
    by (simp only: suffix_append)
  then show False
  proof
    assume "suffix t ''</mark>''"
    then show False by (rule short)
  next
    assume "\<exists>t'. t = t' @ ''</mark>'' \<and> suffix t' txt"
    then obtain t' where t': "t = t' @ ''</mark>''" "suffix t' txt" by blast
    show False
    proof (cases "t' = []")
      case True
      then have "suffix t ''</mark>''" using t'(1) by simp
      then show False by (rule short)
    next
      case False
      have "\<not> prefix lit (t' @ CHR ''<'' # ''/mark>'')"
        by (rule no_straddle [OF l' no t'(2) False])
      then show False using p t'(1) by simp
    qed
  qed
qed

lemma replaceAll_open_text_close:
  assumes "lit = ''<mark style'' \<or> lit = ''<mark class''" "\<not> occurs lit txt"
  shows "replaceAll (matchOpen lit) (txt @ ''</mark>'') = txt @ ''</mark>''"
  by (rule replaceAll_none) (rule open_none_in_text_close [OF assms])

lemma replaceAll_close_text_close:
  assumes "\<not> occurs ''</mark>'' txt"
  shows "replaceAll matchClose (txt @ ''</mark>'') = txt"
proof -
  have "matchClose (t @ ''</mark>'') = None" if "suffix t txt" "t \<noteq> []" for t
  proof (rule ccontr)
    assume "matchClose (t @ ''</mark>'') \<noteq> None"
    then have "prefix ''</mark>'' (t @ ''</mark>'')" by (rule matchClose_prefix)
    then show False
      using no_straddle [where lit = "''</mark>''" and l' = "''/mark>''" and v = "''/mark>''",
          OF _ _ assms that]
      by simp
  qed
  then have "replaceAll matchClose (txt @ ''</mark>'') = txt @ replaceAll matchClose ''</mark>''"
    by (rule replaceAll_keep)
  then show ?thesis by (simp add: matchClose_def)
qed

lemma lazyTail_mid:
  assumes "\<forall>c \<in> set mid. c \<noteq> CHR ''>'' \<and> \<not> isLineTerminator c" "q \<noteq> CHR ''>''"
  shows "lazyTail (mid @ q # CHR ''>'' # rest) = Some (length mid + 2)"
  using assms
proof (induction mid)
  case Nil
  then show ?case by simp
next
  case (Cons c mid)
  obtain d t where dt: "mid @ q # CHR ''>'' # rest = d # t" and d: "d \<noteq> CHR ''>''"
    using Cons.prems by (cases mid) auto
  have "lazyTail (d # t) = Some (length mid + 2)"
    using Cons dt by simp
  then show ?case using Cons.prems d dt by simp
qed

lemma replaceAll_own_prefix:
  assumes P: "P = lit @ mid @ [CHR 0x22, CHR ''>'']"
    and lit: "lit = ''<mark style'' \<or> lit = ''<mark class''"
    and gt: "CHR ''>'' \<notin> set (butlast P)"
    and lt: "\<forall>c \<in> set P. \<not> isLineTerminator c"
  shows "replaceAll (matchOpen lit) (P @ rest) = replaceAll (matchOpen lit) rest"
proof -
  have bl: "butlast P = lit @ mid @ [CHR 0x22]" by (simp add: P butlast_append)
  have mid: "\<forall>c \<in> set mid. c \<noteq> CHR ''>'' \<and> \<not> isLineTerminator c"
    using gt lt unfolding bl by (auto simp: P)
  have lz: "lazyTail (mid @ CHR 0x22 # CHR ''>'' # rest) = Some (length mid + 2)"
    by (rule lazyTail_mid [OF mid]) simp
  have m: "matchOpen lit (P @ rest) = Some (length P)"
    using lz by (simp add: matchOpen_def P)
  obtain P' where P': "P = CHR ''<'' # P'"
    using lit by (cases "lit = ''<mark style''") (auto simp: P)
  have "matchOpen lit (CHR ''<'' # (P' @ rest)) = Some (Suc (length P'))"
    using m by (simp add: P')
  then have "replaceAll (matchOpen lit) (CHR ''<'' # (P' @ rest))
      = replaceAll (matchOpen lit) (drop (length P') (P' @ rest))"
    by simp
  then show ?thesis by (simp add: P')
qed

lemma selectMark_selected:
  "getSelection e \<noteq> [] \<Longrightarrow> fst (selectMarkRegionIfInside e b) = e"
  by (simp add: selectMarkRegionIfInside_def Let_def)

lemma erase_selected:
  assumes d: "doc e = pre @ ins @ post"
    and a: "anchor e = length pre" and h: "head e = length pre + length ins"
    and ne: "ins \<noteq> []"
  shows "doc (eraseHighlight st e) = pre @ stripMarks ins @ post"
proof -
  have f: "selFrom e = length pre" and t: "selTo e = length pre + length ins"
    by (simp_all add: selFrom_def selTo_def a h)
  have g: "getSelection e = ins" by (simp add: getSelection_def f t d)
  obtain e1 r where sel: "selectMarkRegionIfInside e True = (e1, r)"
    by (cases "selectMarkRegionIfInside e True") auto
  have e1: "e1 = e" using selectMark_selected [of e True] g ne sel by simp
  have c: "currentStr e = getRange e1 (mfrom r) (mto r)"
    by (simp add: currentStr_def sel)
  have "currentStr e = ins"
    using currentStr_eq [OF sel] by (simp add: e1 f t d)
  then have "getRange e1 (mfrom r) (mto r) = ins" using c by simp
  then show ?thesis
    using eraseHighlight_doc [OF sel, of st] by (simp add: e1 f t d)
qed

lemma replaceAll_style_in_class_prefix:
  assumes P: "P = ''<mark class'' @ mid @ [CHR 0x22, CHR ''>'']"
    and no: "\<not> occurs ''<mark style'' P"
  shows "replaceAll (matchOpen ''<mark style'') (P @ rest)
     = P @ replaceAll (matchOpen ''<mark style'') rest"
proof (rule replaceAll_keep)
  fix t
  assume t: "suffix t P" "t \<noteq> []"
  show "matchOpen ''<mark style'' (t @ rest) = None"
  proof (rule ccontr)
    assume "matchOpen ''<mark style'' (t @ rest) \<noteq> None"
    then have "prefix ''<mark style'' (t @ rest)" by (rule matchOpen_prefix)
    then have "prefix ''<mark style'' t \<or> (\<exists>us. ''<mark style'' = t @ us \<and> prefix us rest)"
      by (simp only: prefix_append)
    then show False
    proof
      assume "prefix ''<mark style'' t"
      then show False using occurs_suffix [OF t(1)] no by simp
    next
      assume "\<exists>us. ''<mark style'' = t @ us \<and> prefix us rest"
      then obtain us where us: "''<mark style'' = t @ us" by blast
      obtain zs where zs: "P = zs @ t" using t(1) by (auto simp: suffix_def)
      have "last P = CHR ''>''" by (simp add: P)
      then have "last t = CHR ''>''" using t(2) by (simp add: zs)
      then have "CHR ''>'' \<in> set t" using t(2) last_in_set by metis
      then have "CHR ''>'' \<in> set ''<mark style''" unfolding us by simp
      then show False by simp
    qed
  qed
qed

lemma strip_wrapped:
  assumes P: "P = lit @ mid @ [CHR 0x22, CHR ''>'']"
    and lit: "lit = ''<mark style'' \<or> lit = ''<mark class''"
    and gt: "CHR ''>'' \<notin> set (butlast P)"
    and lt: "\<forall>c \<in> set P. \<not> isLineTerminator c"
    and st: "prefix ''<mark class'' P \<longrightarrow> \<not> occurs ''<mark style'' P"
    and no: "\<not> occurs ''<mark style'' txt" "\<not> occurs ''<mark class'' txt"
      "\<not> occurs ''</mark>'' txt"
  shows "stripMarks (P @ txt @ ''</mark>'') = txt"
proof -
  let ?S = "''</mark>''"
  have s: "replaceAll (matchOpen ''<mark style'') (txt @ ?S) = txt @ ?S"
    by (rule replaceAll_open_text_close) (simp_all add: no)
  have c: "replaceAll (matchOpen ''<mark class'') (txt @ ?S) = txt @ ?S"
    by (rule replaceAll_open_text_close) (simp_all add: no)
  have e: "replaceAll matchClose (txt @ ?S) = txt"
    by (rule replaceAll_close_text_close) (rule no(3))
  from lit show ?thesis
  proof
    assume l: "lit = ''<mark style''"
    have "replaceAll (matchOpen ''<mark style'') (P @ txt @ ?S)
        = replaceAll (matchOpen ''<mark style'') (txt @ ?S)"
      using replaceAll_own_prefix [OF P lit gt lt] l by simp
    then show ?thesis unfolding stripMarks_def by (simp only: s c e)
  next
    assume l: "lit = ''<mark class''"
    have P': "P = ''<mark class'' @ mid @ [CHR 0x22, CHR ''>'']" using P l by simp
    have "prefix ''<mark class'' P" unfolding P' by (rule prefixI) simp
    then have no': "\<not> occurs ''<mark style'' P" using st by simp
    have 1: "replaceAll (matchOpen ''<mark style'') (P @ txt @ ?S) = P @ txt @ ?S"
      using replaceAll_style_in_class_prefix [OF P' no', of "txt @ ?S"] s by simp
    have 2: "replaceAll (matchOpen ''<mark class'') (P @ txt @ ?S)
        = replaceAll (matchOpen ''<mark class'') (txt @ ?S)"
      using replaceAll_own_prefix [OF P lit gt lt] l by simp
    show ?thesis unfolding stripMarks_def by (simp only: 1 2 c e)
  qed
qed

lemma commandsMap_prefix_form:
  \<open>\<exists>lit mid. (lit = ''<mark style'' \<or> lit = ''<mark class'')
     \<and> prefix_cp (commandsMap st key) = lit @ mid @ [CHR 0x22, CHR ''>'']\<close>
proof (cases "highlighterMethods st = ''css-classes''")
  case True
  then have \<open>prefix_cp (commandsMap st key)
      = ''<mark class'' @ (''="hltr-'' @ toLowerCase key) @ [CHR 0x22, CHR ''>'']\<close>
    by (simp add: commandsMap_def)
  then show ?thesis by blast
next
  case False
  then have \<open>prefix_cp (commandsMap st key)
      = ''<mark style''
        @ (''="background: '' @ templateValue (getProperty (highlighters st) key) @ '';'')
        @ [CHR 0x22, CHR ''>'']\<close>
    by (simp add: commandsMap_def)
  then show ?thesis by blast
qed

lemma applyCommand_inserts:
  assumes seln: "txt = getSelection ed" "txt \<noteq> []"
    and sfx: "suffix_cp cmd \<noteq> []"
    and op: "useTogglingBehavior st \<longrightarrow> \<not> testOpenMark txt"
    and mg: "\<not> useTogglingBehavior st \<longrightarrow> \<not> mergeTaken cmd ed (snd (selectWordIfNone ed))"
  shows "doc (applyCommand st cmd ed)
     = take (selFrom ed) (doc ed) @ (prefix_cp cmd @ txt @ suffix_cp cmd) @ drop (selTo ed) (doc ed)"
proof -
  define w where "w = \<lparr>wselection = txt, wfrom = getCursorFrom ed, wto = getCursorTo ed,
      wordSelected = False\<rparr>"
  have sw: "selectWordIfNone ed = (ed, w)"
    using seln(1,2) by (simp add: selectWordIfNone_def Let_def w_def)
  show ?thesis
  proof (cases "useTogglingBehavior st")
    case True
    then show ?thesis
      using op seln(2) sfx
      by (simp add: applyCommand_def sw toggleApply_def Let_def w_def
          setSelection_def replaceSelection_def)
  next
    case False
    then have "\<not> mergeTaken cmd ed w" using mg sw by simp
    then have "mergeApply st cmd ed w =
        setCursor (replaceSelection ed (prefix_cp cmd @ txt @ suffix_cp cmd))
          \<lparr>line = line (wfrom w) + line_cp cmd * 1,
           ch = ch (wto w) + cursorPos txt (prefix_cp cmd) (suffix_cp cmd) * 1\<rparr>"
      using False sfx unfolding mergeTaken_def mergeApply_def Let_def
      by (auto simp: w_def)
    then show ?thesis
      using False
      by (simp add: applyCommand_def sw setCursor_def replaceSelection_def Let_def)
  qed
qed

text \<open>
  Claim C1, as amended. Take a template of the registry whose prefix has \<open>>\<close> only as its last
  character, has no line terminator and, when it is in the class syntax, does not hold
  \<open><mark style\<close>. Take a selected text that is not empty, holds no opening mark tag and none
  of \<open><mark style\<close>, \<open><mark class\<close> and \<open></mark>\<close>. With toggling disabled, let the merge
  branch not be taken. Then \<open>applyCommand\<close> replaces the selection by prefix, text and suffix,
  and \<open>eraseHighlight\<close>, run with exactly this markup selected (from the start of the old
  selection, over the length of the markup), restores the text of the buffer. The selected
  text may have line breaks, and toggling may be enabled or disabled.
\<close>

theorem apply_then_erase_restores:
  assumes cmd: "cmd = commandsMap st key"
    and gt: "CHR ''>'' \<notin> set (butlast (prefix_cp cmd))"
    and lt: "\<forall>c \<in> set (prefix_cp cmd). \<not> isLineTerminator c"
    and stl: "prefix ''<mark class'' (prefix_cp cmd) \<longrightarrow> \<not> occurs ''<mark style'' (prefix_cp cmd)"
    and seln: "txt = getSelection ed" "txt \<noteq> []"
    and no: "\<not> testOpenMark txt" "\<not> occurs ''<mark style'' txt"
      "\<not> occurs ''<mark class'' txt" "\<not> occurs ''</mark>'' txt"
    and mg: "\<not> useTogglingBehavior st \<longrightarrow> \<not> mergeTaken cmd ed (snd (selectWordIfNone ed))"
    and span: "markup = prefix_cp cmd @ txt @ suffix_cp cmd" "a = selFrom ed"
  shows "doc (applyCommand st cmd ed) = take a (doc ed) @ markup @ drop (selTo ed) (doc ed)
    \<and> doc (eraseHighlight st (withSelection (applyCommand st cmd ed) a (a + length markup)))
        = doc ed"
proof -
  let ?P = "prefix_cp cmd"
  let ?S = "''</mark>''"
  let ?pre = "take (selFrom ed) (doc ed)"
  let ?post = "drop (selTo ed) (doc ed)"
  have le: "selFrom ed \<le> length (doc ed)"
  proof (rule ccontr)
    assume "\<not> selFrom ed \<le> length (doc ed)"
    then have "getSelection ed = []" by (simp add: getSelection_def)
    then show False using seln by simp
  qed
  have lp: "length ?pre = selFrom ed" using le by simp
  have whole: "?pre @ txt @ ?post = doc ed"
  proof -
    have ft: "selFrom ed \<le> selTo ed" by (simp add: selFrom_def selTo_def)
    have "drop (selTo ed) (doc ed) = drop (selTo ed - selFrom ed) (drop (selFrom ed) (doc ed))"
      using ft by simp
    then have "txt @ ?post = drop (selFrom ed) (doc ed)"
      unfolding seln(1) getSelection_def by (simp only: append_take_drop_id)
    then show ?thesis by simp
  qed
  have sfx: "suffix_cp cmd = ?S" by (simp add: cmd commandsMap_def)
  have m: "markup = ?P @ txt @ ?S" by (simp add: span(1) sfx)
  obtain lit mid where form: "lit = ''<mark style'' \<or> lit = ''<mark class''"
    "?P = lit @ mid @ [CHR 0x22, CHR ''>'']"
    using commandsMap_prefix_form [of st key] cmd by blast
  have wrapped: "stripMarks markup = txt"
    unfolding m by (rule strip_wrapped [OF form(2) form(1) gt lt stl no(2,3,4)])
  have ap: "doc (applyCommand st cmd ed) = ?pre @ markup @ ?post"
    unfolding span(1) by (rule applyCommand_inserts [OF seln]) (use no(1) mg sfx in simp_all)
  have ne: "markup \<noteq> []" using seln(2) by (simp add: m)
  have "doc (eraseHighlight st (withSelection (applyCommand st cmd ed) a (a + length markup)))
      = ?pre @ stripMarks markup @ ?post"
    by (rule erase_selected) (use le in \<open>simp_all add: withSelection_def ap span(2) ne\<close>)
  then show ?thesis
    using ap by (simp add: wrapped whole span(2))
qed

theorem apply_then_erase_restores_witness:
  \<open>doc (applyCommand
        \<lparr>highlighterMethods = ''css-classes'', highlighters = [], highlighterOrder = [''A''],
         useTogglingBehavior = True\<rparr>
        (commandsMap
          \<lparr>highlighterMethods = ''css-classes'', highlighters = [], highlighterOrder = [''A''],
         useTogglingBehavior = True\<rparr> ''A'')
        \<lparr>doc = ''ab\<newline>cd'', anchor = 0, head = 5\<rparr>) = ''<mark class="hltr-a">ab\<newline>cd</mark>''
   \<and> doc (eraseHighlight
        \<lparr>highlighterMethods = ''css-classes'', highlighters = [], highlighterOrder = [''A''],
         useTogglingBehavior = True\<rparr>
        (withSelection
          (applyCommand
        \<lparr>highlighterMethods = ''css-classes'', highlighters = [], highlighterOrder = [''A''],
         useTogglingBehavior = True\<rparr>
        (commandsMap
          \<lparr>highlighterMethods = ''css-classes'', highlighters = [], highlighterOrder = [''A''],
         useTogglingBehavior = True\<rparr> ''A'')
        \<lparr>doc = ''ab\<newline>cd'', anchor = 0, head = 5\<rparr>)
          0 (0 + length ''<mark class="hltr-a">ab\<newline>cd</mark>''))) = ''ab\<newline>cd''
   \<and> doc (applyCommand
        \<lparr>highlighterMethods = ''inline-styles'', highlighters = [(''A'', ''#FFB8EB'')],
         highlighterOrder = [''A''], useTogglingBehavior = False\<rparr>
        (commandsMap
          \<lparr>highlighterMethods = ''inline-styles'', highlighters = [(''A'', ''#FFB8EB'')],
         highlighterOrder = [''A''], useTogglingBehavior = False\<rparr> ''A'')
        \<lparr>doc = ''x ab y'', anchor = 2, head = 4\<rparr>)
      = ''x <mark style="background: #FFB8EB;">ab</mark> y''
   \<and> doc (eraseHighlight
        \<lparr>highlighterMethods = ''inline-styles'', highlighters = [(''A'', ''#FFB8EB'')],
         highlighterOrder = [''A''], useTogglingBehavior = False\<rparr>
        (withSelection
          (applyCommand
        \<lparr>highlighterMethods = ''inline-styles'', highlighters = [(''A'', ''#FFB8EB'')],
         highlighterOrder = [''A''], useTogglingBehavior = False\<rparr>
        (commandsMap
          \<lparr>highlighterMethods = ''inline-styles'', highlighters = [(''A'', ''#FFB8EB'')],
         highlighterOrder = [''A''], useTogglingBehavior = False\<rparr> ''A'')
        \<lparr>doc = ''x ab y'', anchor = 2, head = 4\<rparr>)
          2 (2 + length ''<mark style="background: #FFB8EB;">ab</mark>''))) = ''x ab y''\<close>
proof -
  let ?s1 = \<open>\<lparr>highlighterMethods = ''css-classes'', highlighters = [], highlighterOrder = [''A''],
         useTogglingBehavior = True\<rparr>\<close>
  let ?e1 = \<open>\<lparr>doc = ''ab\<newline>cd'', anchor = 0, head = 5\<rparr>\<close>
  let ?c1 = "commandsMap ?s1 ''A''"
  let ?m1 = \<open>''<mark class="hltr-a">ab\<newline>cd</mark>''\<close>
  let ?s2 = \<open>\<lparr>highlighterMethods = ''inline-styles'', highlighters = [(''A'', ''#FFB8EB'')],
         highlighterOrder = [''A''], useTogglingBehavior = False\<rparr>\<close>
  let ?e2 = \<open>\<lparr>doc = ''x ab y'', anchor = 2, head = 4\<rparr>\<close>
  let ?c2 = "commandsMap ?s2 ''A''"
  let ?m2 = \<open>''<mark style="background: #FFB8EB;">ab</mark>''\<close>
  have a1: "CHR ''>'' \<notin> set (butlast (prefix_cp ?c1))" by code_simp
  have a2: "\<forall>c \<in> set (prefix_cp ?c1). \<not> isLineTerminator c" by code_simp
  have a3: "prefix ''<mark class'' (prefix_cp ?c1) \<longrightarrow> \<not> occurs ''<mark style'' (prefix_cp ?c1)"
    by code_simp
  have a4: "''ab\<newline>cd'' = getSelection ?e1" by code_simp
  have a5: "''ab\<newline>cd'' \<noteq> []" by simp
  have a6: "\<not> testOpenMark ''ab\<newline>cd''" "\<not> occurs ''<mark style'' ''ab\<newline>cd''"
    "\<not> occurs ''<mark class'' ''ab\<newline>cd''" "\<not> occurs ''</mark>'' ''ab\<newline>cd''"
    by code_simp+
  have a7: "\<not> useTogglingBehavior ?s1 \<longrightarrow> \<not> mergeTaken ?c1 ?e1 (snd (selectWordIfNone ?e1))"
    by simp
  have a8: "?m1 = prefix_cp ?c1 @ ''ab\<newline>cd'' @ suffix_cp ?c1" by code_simp
  have a9: "0 = selFrom ?e1" by code_simp
  have a10: "take 0 (doc ?e1) @ ?m1 @ drop (selTo ?e1) (doc ?e1) = ?m1" by code_simp
  have b1: "CHR ''>'' \<notin> set (butlast (prefix_cp ?c2))" by code_simp
  have b2: "\<forall>c \<in> set (prefix_cp ?c2). \<not> isLineTerminator c" by code_simp
  have b3: "prefix ''<mark class'' (prefix_cp ?c2) \<longrightarrow> \<not> occurs ''<mark style'' (prefix_cp ?c2)"
    by code_simp
  have b4: "''ab'' = getSelection ?e2" by code_simp
  have b5: "''ab'' \<noteq> []" by simp
  have b6: "\<not> testOpenMark ''ab''" "\<not> occurs ''<mark style'' ''ab''"
    "\<not> occurs ''<mark class'' ''ab''" "\<not> occurs ''</mark>'' ''ab''"
    by code_simp+
  have b7: "\<not> useTogglingBehavior ?s2 \<longrightarrow> \<not> mergeTaken ?c2 ?e2 (snd (selectWordIfNone ?e2))"
    by code_simp
  have b8: "?m2 = prefix_cp ?c2 @ ''ab'' @ suffix_cp ?c2" by code_simp
  have b9: "2 = selFrom ?e2" by code_simp
  have b10: \<open>take 2 (doc ?e2) @ ?m2 @ drop (selTo ?e2) (doc ?e2)
      = ''x <mark style="background: #FFB8EB;">ab</mark> y''\<close> by code_simp
  have d1: "doc ?e1 = ''ab\<newline>cd''" and d2: "doc ?e2 = ''x ab y''" by simp_all
  note r1 = apply_then_erase_restores [OF refl a1 a2 a3 a4 a5 a6 a7 a8 a9]
  note r2 = apply_then_erase_restores [OF refl b1 b2 b3 b4 b5 b6 b7 b8 b9]
  have c1: "doc (applyCommand ?s1 ?c1 ?e1) = ?m1"
    using r1 [THEN conjunct1] by (simp only: a10)
  have c2: "doc (eraseHighlight ?s1 (withSelection (applyCommand ?s1 ?c1 ?e1) 0 (0 + length ?m1)))
      = ''ab\<newline>cd''"
    using r1 [THEN conjunct2] by (simp only: d1)
  have c3: \<open>doc (applyCommand ?s2 ?c2 ?e2) = ''x <mark style="background: #FFB8EB;">ab</mark> y''\<close>
    using r2 [THEN conjunct1] by (simp only: b10)
  have c4: "doc (eraseHighlight ?s2 (withSelection (applyCommand ?s2 ?c2 ?e2) 2 (2 + length ?m2)))
      = ''x ab y''"
    using r2 [THEN conjunct2] by (simp only: d2)
  show ?thesis
    by (intro conjI) (rule c1, rule c2, rule c3, rule c4)
qed

theorem apply_then_erase_counterexample:
  \<open>\<not> testOpenMark ''<mark style'' \<and> \<not> occurs ''</mark>'' ''<mark style''
   \<and> doc (eraseHighlight
        \<lparr>highlighterMethods = ''css-classes'', highlighters = [], highlighterOrder = [''a''],
         useTogglingBehavior = True\<rparr>
        (withSelection
          (applyCommand
            \<lparr>highlighterMethods = ''css-classes'', highlighters = [], highlighterOrder = [''a''],
         useTogglingBehavior = True\<rparr>
            (commandsMap
              \<lparr>highlighterMethods = ''css-classes'', highlighters = [], highlighterOrder = [''a''],
         useTogglingBehavior = True\<rparr> ''a'')
            \<lparr>doc = ''x <mark style y'', anchor = 2, head = 13\<rparr>)
          2 (2 + length ''<mark class="hltr-a"><mark style</mark>''))) = ''x  y''
   \<and> doc (eraseHighlight
        \<lparr>highlighterMethods = ''inline-styles'', highlighters = [(''a'', ''a>b'')],
         highlighterOrder = [''a''], useTogglingBehavior = True\<rparr>
        (withSelection
          (applyCommand
            \<lparr>highlighterMethods = ''inline-styles'', highlighters = [(''a'', ''a>b'')],
         highlighterOrder = [''a''], useTogglingBehavior = True\<rparr>
            (commandsMap
              \<lparr>highlighterMethods = ''inline-styles'', highlighters = [(''a'', ''a>b'')],
         highlighterOrder = [''a''], useTogglingBehavior = True\<rparr> ''a'')
            \<lparr>doc = ''x ab y'', anchor = 2, head = 4\<rparr>)
          2 (2 + length ''<mark style="background: a>b;">ab</mark>''))) = ''x b;">ab y''
   \<and> doc (eraseHighlight
        \<lparr>highlighterMethods = ''inline-styles'', highlighters = [(''a'', ''a\<newline>b'')],
         highlighterOrder = [''a''], useTogglingBehavior = True\<rparr>
        (withSelection
          (applyCommand
            \<lparr>highlighterMethods = ''inline-styles'', highlighters = [(''a'', ''a\<newline>b'')],
         highlighterOrder = [''a''], useTogglingBehavior = True\<rparr>
            (commandsMap
              \<lparr>highlighterMethods = ''inline-styles'', highlighters = [(''a'', ''a\<newline>b'')],
         highlighterOrder = [''a''], useTogglingBehavior = True\<rparr> ''a'')
            \<lparr>doc = ''x ab y'', anchor = 2, head = 4\<rparr>)
          2 (2 + length ''<mark style="background: a\<newline>b;">ab</mark>''))) = ''x <mark style="background: a\<newline>b;">ab y''
   \<and> doc (eraseHighlight
        \<lparr>highlighterMethods = ''css-classes'', highlighters = [],
         highlighterOrder = [''<mark style''], useTogglingBehavior = True\<rparr>
        (withSelection
          (applyCommand
            \<lparr>highlighterMethods = ''css-classes'', highlighters = [],
         highlighterOrder = [''<mark style''], useTogglingBehavior = True\<rparr>
            (commandsMap
              \<lparr>highlighterMethods = ''css-classes'', highlighters = [],
         highlighterOrder = [''<mark style''], useTogglingBehavior = True\<rparr> ''<mark style'')
            \<lparr>doc = ''x ab y'', anchor = 2, head = 4\<rparr>)
          2 (2 + length ''<mark class="hltr-<mark style">ab</mark>''))) = ''x  y''
   \<and> doc (applyCommand
        \<lparr>highlighterMethods = ''css-classes'', highlighters = [], highlighterOrder = [''a''],
         useTogglingBehavior = False\<rparr>
        (commandsMap
          \<lparr>highlighterMethods = ''css-classes'', highlighters = [], highlighterOrder = [''a''],
         useTogglingBehavior = False\<rparr> ''a'')
        \<lparr>doc = ''x <mark class="hltr-a">hi</mark> y'', anchor = 23, head = 25\<rparr>) = ''x hi y''
   \<and> doc (eraseHighlight
        \<lparr>highlighterMethods = ''css-classes'', highlighters = [], highlighterOrder = [''a''],
         useTogglingBehavior = False\<rparr>
        (withSelection
          (applyCommand
            \<lparr>highlighterMethods = ''css-classes'', highlighters = [], highlighterOrder = [''a''],
         useTogglingBehavior = False\<rparr>
            (commandsMap
              \<lparr>highlighterMethods = ''css-classes'', highlighters = [], highlighterOrder = [''a''],
         useTogglingBehavior = False\<rparr> ''a'')
            \<lparr>doc = ''x <mark class="hltr-a">hi</mark> y'', anchor = 23, head = 25\<rparr>)
          0 6)) = ''x hi y''\<close>
  by code_simp


section \<open>Positions\<close>








section \<open>The template of a key\<close>

text \<open>
  Claim C8, as amended. \<open>commandsMap\<close> builds a template for every key. With css classes the
  prefix is \<open><mark class="hltr-\<close>, the key in lower case and \<open>">\<close>, whatever the colour mapping
  holds. With inline styles the prefix holds what \<open>highlighters[key]\<close> prints: the colour of
  a key of the mapping and, for a key that is not in the mapping, the text of the member of
  \<open>Object.prototype\<close> of that name, or the text \<open>undefined\<close> when there is none. The template
  of a key that is not in the mapping is the template of a key configured with that text,
  and with toggling enabled \<open>applyCommand\<close> writes the prefix that holds \<open>undefined\<close> and the
  suffix around a selected text that is not empty and holds no opening mark tag. The suffix
  is \<open></mark>\<close> and the line delta is 0.
\<close>

theorem resolve_prints_the_lookup:
  \<open>(highlighterMethods st = ''css-classes'' \<longrightarrow>
        prefix_cp (commandsMap st key) = ''<mark class="hltr-'' @ toLowerCase key @ ''">''
        \<and> commandsMap (st\<lparr>highlighters := h\<rparr>) key = commandsMap st key)
   \<and> (highlighterMethods st \<noteq> ''css-classes'' \<and> map_of (highlighters st) key = Some colour \<longrightarrow>
        prefix_cp (commandsMap st key) = ''<mark style="background: '' @ colour @ '';">'')
   \<and> (highlighterMethods st \<noteq> ''css-classes'' \<and> map_of (highlighters st) key = None
        \<and> map_of objectPrototype key = Some member \<longrightarrow>
        prefix_cp (commandsMap st key) = ''<mark style="background: '' @ member @ '';">''
        \<and> commandsMap st key
            = commandsMap (st\<lparr>highlighters := (key, member) # highlighters st\<rparr>) key)
   \<and> (highlighterMethods st \<noteq> ''css-classes'' \<and> map_of (highlighters st) key = None
        \<and> map_of objectPrototype key = None \<longrightarrow>
        prefix_cp (commandsMap st key) = ''<mark style="background: undefined;">''
        \<and> commandsMap st key
            = commandsMap (st\<lparr>highlighters := (key, ''undefined'') # highlighters st\<rparr>) key)
   \<and> (highlighterMethods st \<noteq> ''css-classes'' \<and> map_of (highlighters st) key = None
        \<and> map_of objectPrototype key = None
        \<and> txt = getSelection ed \<and> txt \<noteq> [] \<and> useTogglingBehavior st \<and> \<not> testOpenMark txt \<longrightarrow>
        doc (applyCommand st (commandsMap st key) ed)
          = take (selFrom ed) (doc ed)
            @ (''<mark style="background: undefined;">'' @ txt @ ''</mark>'')
            @ drop (selTo ed) (doc ed))
   \<and> suffix_cp (commandsMap st key) = ''</mark>'' \<and> line_cp (commandsMap st key) = 0\<close>
proof -
  have ins: \<open>doc (applyCommand st (commandsMap st key) ed)
          = take (selFrom ed) (doc ed)
            @ (''<mark style="background: undefined;">'' @ txt @ ''</mark>'')
            @ drop (selTo ed) (doc ed)\<close>
    if "highlighterMethods st \<noteq> ''css-classes''" "map_of (highlighters st) key = None"
      "map_of objectPrototype key = None" "txt = getSelection ed" "txt \<noteq> []"
      "useTogglingBehavior st" "\<not> testOpenMark txt"
  proof -
    have p: \<open>prefix_cp (commandsMap st key) = ''<mark style="background: undefined;">''\<close>
      and q: \<open>suffix_cp (commandsMap st key) = ''</mark>''\<close>
      using that(1,2,3) by (simp_all add: commandsMap_def templateValue_def getProperty_def)
    show ?thesis
      using applyCommand_inserts [of "txt" ed "commandsMap st key" st] that(4,5,6,7)
      unfolding p q by simp
  qed
  have 1: \<open>highlighterMethods st = ''css-classes'' \<longrightarrow>
        prefix_cp (commandsMap st key) = ''<mark class="hltr-'' @ toLowerCase key @ ''">''
        \<and> commandsMap (st\<lparr>highlighters := h\<rparr>) key = commandsMap st key\<close>
    by (simp add: commandsMap_def)
  have 2: \<open>highlighterMethods st \<noteq> ''css-classes'' \<and> map_of (highlighters st) key = Some colour \<longrightarrow>
        prefix_cp (commandsMap st key) = ''<mark style="background: '' @ colour @ '';">''\<close>
    by (simp add: commandsMap_def templateValue_def getProperty_def)
  have 3: \<open>highlighterMethods st \<noteq> ''css-classes'' \<and> map_of (highlighters st) key = None
        \<and> map_of objectPrototype key = Some member \<longrightarrow>
        prefix_cp (commandsMap st key) = ''<mark style="background: '' @ member @ '';">''
        \<and> commandsMap st key
            = commandsMap (st\<lparr>highlighters := (key, member) # highlighters st\<rparr>) key\<close>
    by (simp add: commandsMap_def templateValue_def getProperty_def)
  have 4: \<open>highlighterMethods st \<noteq> ''css-classes'' \<and> map_of (highlighters st) key = None
        \<and> map_of objectPrototype key = None \<longrightarrow>
        prefix_cp (commandsMap st key) = ''<mark style="background: undefined;">''
        \<and> commandsMap st key
            = commandsMap (st\<lparr>highlighters := (key, ''undefined'') # highlighters st\<rparr>) key\<close>
    by (simp add: commandsMap_def templateValue_def getProperty_def)
  have 5: \<open>highlighterMethods st \<noteq> ''css-classes'' \<and> map_of (highlighters st) key = None
        \<and> map_of objectPrototype key = None
        \<and> txt = getSelection ed \<and> txt \<noteq> [] \<and> useTogglingBehavior st \<and> \<not> testOpenMark txt \<longrightarrow>
        doc (applyCommand st (commandsMap st key) ed)
          = take (selFrom ed) (doc ed)
            @ (''<mark style="background: undefined;">'' @ txt @ ''</mark>'')
            @ drop (selTo ed) (doc ed)\<close>
    using ins by (intro impI) (elim conjE)
  have 6: \<open>suffix_cp (commandsMap st key) = ''</mark>''\<close>
    and 7: \<open>line_cp (commandsMap st key) = 0\<close>
    by (simp_all add: commandsMap_def)
  show ?thesis
    by (intro conjI) (fact 1 2 3 4 5 6 7)+
qed

theorem resolve_prints_the_lookup_witness:
  \<open>prefix_cp (commandsMap
      \<lparr>highlighterMethods = ''css-classes'', highlighters = [(''Pink'', ''#FFB8EB'')],
       highlighterOrder = [''Pink''], useTogglingBehavior = False\<rparr> ''Pink'') = ''<mark class="hltr-pink">''
   \<and> prefix_cp (commandsMap
      \<lparr>highlighterMethods = ''inline-styles'', highlighters = [(''Pink'', ''#FFB8EB'')],
       highlighterOrder = [''Pink''], useTogglingBehavior = False\<rparr> ''Pink'') = ''<mark style="background: #FFB8EB;">''
   \<and> prefix_cp (commandsMap
      \<lparr>highlighterMethods = ''inline-styles'', highlighters = [(''Pink'', ''#FFB8EB'')],
       highlighterOrder = [''Pink''], useTogglingBehavior = False\<rparr> ''toString'')
      = ''<mark style="background: function toString() { [native code] };">''
   \<and> prefix_cp (commandsMap
      \<lparr>highlighterMethods = ''inline-styles'', highlighters = [(''Pink'', ''#FFB8EB'')],
       highlighterOrder = [''Pink''], useTogglingBehavior = False\<rparr> ''Red'') = ''<mark style="background: undefined;">''
   \<and> commandsMap
      \<lparr>highlighterMethods = ''inline-styles'', highlighters = [(''Pink'', ''#FFB8EB'')],
       highlighterOrder = [''Pink''], useTogglingBehavior = False\<rparr> ''Red''
      = commandsMap
      \<lparr>highlighterMethods = ''inline-styles'',
       highlighters = [(''Red'', ''undefined''), (''Pink'', ''#FFB8EB'')],
       highlighterOrder = [''Pink''], useTogglingBehavior = False\<rparr> ''Red''
   \<and> doc (applyCommand
      \<lparr>highlighterMethods = ''inline-styles'', highlighters = [(''Pink'', ''#FFB8EB'')],
       highlighterOrder = [''Pink''], useTogglingBehavior = True\<rparr>
      (commandsMap
      \<lparr>highlighterMethods = ''inline-styles'', highlighters = [(''Pink'', ''#FFB8EB'')],
       highlighterOrder = [''Pink''], useTogglingBehavior = True\<rparr> ''Red'')
      \<lparr>doc = ''x ab y'', anchor = 2, head = 4\<rparr>)
     = ''x <mark style="background: undefined;">ab</mark> y''\<close>
proof -
  let ?st = \<open>\<lparr>highlighterMethods = ''inline-styles'', highlighters = [(''Pink'', ''#FFB8EB'')],
       highlighterOrder = [''Pink''], useTogglingBehavior = True\<rparr>\<close>
  let ?ed = "\<lparr>doc = ''x ab y'', anchor = 2, head = 4\<rparr>"
  have t1: "highlighterMethods ?st \<noteq> ''css-classes''" by simp
  have t2: "map_of (highlighters ?st) ''Red'' = None" by simp
  have t3: "''ab'' = getSelection ?ed" by code_simp
  have t4: "''ab'' \<noteq> []" by simp
  have t5: "useTogglingBehavior ?st" by simp
  have t6: "\<not> testOpenMark ''ab''" by code_simp
  have t7: "take (selFrom ?ed) (doc ?ed) = ''x ''" by code_simp
  have t8: "drop (selTo ?ed) (doc ?ed) = '' y''" by code_simp
  let ?sc = \<open>\<lparr>highlighterMethods = ''css-classes'', highlighters = [(''Pink'', ''#FFB8EB'')],
       highlighterOrder = [''Pink''], useTogglingBehavior = False\<rparr>\<close>
  let ?si = \<open>\<lparr>highlighterMethods = ''inline-styles'', highlighters = [(''Pink'', ''#FFB8EB'')],
       highlighterOrder = [''Pink''], useTogglingBehavior = False\<rparr>\<close>
  have l: "toLowerCase ''Pink'' = ''pink''" by code_simp
  have m1: "map_of (highlighters ?si) ''Pink'' = Some ''#FFB8EB''" by simp
  have m2: "map_of (highlighters ?si) ''toString'' = None" by simp
  have m3: "map_of objectPrototype ''toString'' = Some ''function toString() { [native code] }''"
    by code_simp
  have m4: "map_of (highlighters ?si) ''Red'' = None" by simp
  have m5: "map_of objectPrototype ''Red'' = None" by code_simp
  have ne: "highlighterMethods ?si \<noteq> ''css-classes''" by simp
  have eq: "highlighterMethods ?sc = ''css-classes''" by simp
  have c1: \<open>prefix_cp (commandsMap ?sc ''Pink'') = ''<mark class="hltr-pink">''\<close>
    using resolve_prints_the_lookup [of ?sc "''Pink''", THEN conjunct1, THEN mp, OF eq,
        THEN conjunct1, unfolded l append.simps]
    by assumption
  have c2: \<open>prefix_cp (commandsMap ?si ''Pink'') = ''<mark style="background: #FFB8EB;">''\<close>
    using resolve_prints_the_lookup [of ?si "''Pink''" _ "''#FFB8EB''", THEN conjunct2,
        THEN conjunct1, THEN mp, OF conjI [OF ne m1],
        unfolded append.simps]
    by assumption
  have c3: \<open>prefix_cp (commandsMap ?si ''toString'')
      = ''<mark style="background: function toString() { [native code] };">''\<close>
    using resolve_prints_the_lookup [of ?si "''toString''" _ _
        "''function toString() { [native code] }''", THEN conjunct2, THEN conjunct2,
        THEN conjunct1, THEN mp, OF conjI [OF ne conjI [OF m2 m3]], THEN conjunct1,
        unfolded append.simps]
    by assumption
  have c45: \<open>prefix_cp (commandsMap ?si ''Red'') = ''<mark style="background: undefined;">''
      \<and> commandsMap ?si ''Red''
        = commandsMap (?si\<lparr>highlighters := (''Red'', ''undefined'') # highlighters ?si\<rparr>) ''Red''\<close>
    using resolve_prints_the_lookup [of ?si "''Red''", THEN conjunct2, THEN conjunct2,
        THEN conjunct2, THEN conjunct1, THEN mp, OF conjI [OF ne conjI [OF m4 m5]]]
    by assumption
  have upd: \<open>?si\<lparr>highlighters := (''Red'', ''undefined'') # highlighters ?si\<rparr>
      = \<lparr>highlighterMethods = ''inline-styles'',
         highlighters = [(''Red'', ''undefined''), (''Pink'', ''#FFB8EB'')],
         highlighterOrder = [''Pink''], useTogglingBehavior = False\<rparr>\<close>
    by simp
  note c4 = c45 [unfolded upd, THEN conjunct1] and c5 = c45 [unfolded upd, THEN conjunct2]
  have c6: \<open>doc (applyCommand ?st (commandsMap ?st ''Red'') ?ed)
      = ''x <mark style="background: undefined;">ab</mark> y''\<close>
    using resolve_prints_the_lookup [of ?st "''Red''" _ _ _ "''ab''" ?ed, THEN conjunct2,
        THEN conjunct2, THEN conjunct2, THEN conjunct2, THEN conjunct1, THEN mp,
        OF conjI [OF t1 conjI [OF t2 conjI [OF m5 conjI [OF t3 conjI [OF t4 conjI [OF t5 t6]]]]]],
        unfolded t7 t8 append.simps]
    by assumption
  show ?thesis
    by (intro conjI) (fact c1 c2 c3 c4 c5 c6)+

qed

theorem resolve_absent_key_counterexample:
  \<open>map_of (highlighters
      \<lparr>highlighterMethods = ''inline-styles'', highlighters = [(''Pink'', ''#FFB8EB'')],
       highlighterOrder = [''Pink'', ''Red''], useTogglingBehavior = False\<rparr>) ''Red'' = None
   \<and> commandsMap
      \<lparr>highlighterMethods = ''inline-styles'', highlighters = [(''Pink'', ''#FFB8EB'')],
       highlighterOrder = [''Pink'', ''Red''], useTogglingBehavior = False\<rparr> ''Red''
     = \<lparr>char_cp = 34, line_cp = 0, prefix_cp = ''<mark style="background: undefined;">'',
        suffix_cp = ''</mark>''\<rparr>
   \<and> map_of (highlighters
      \<lparr>highlighterMethods = ''inline-styles'', highlighters = [(''Pink'', ''#FFB8EB'')],
       highlighterOrder = [''Pink'', ''constructor''], useTogglingBehavior = False\<rparr>)
      ''constructor'' = None
   \<and> commandsMap
      \<lparr>highlighterMethods = ''inline-styles'', highlighters = [(''Pink'', ''#FFB8EB'')],
       highlighterOrder = [''Pink'', ''constructor''], useTogglingBehavior = False\<rparr>
      ''constructor''
     = \<lparr>char_cp = 34, line_cp = 0,
        prefix_cp = ''<mark style="background: function Object() { [native code] };">'',
        suffix_cp = ''</mark>''\<rparr>
   \<and> doc (applyCommand
      \<lparr>highlighterMethods = ''inline-styles'', highlighters = [(''Pink'', ''#FFB8EB'')],
       highlighterOrder = [''Pink'', ''Red''], useTogglingBehavior = False\<rparr>
      (commandsMap
      \<lparr>highlighterMethods = ''inline-styles'', highlighters = [(''Pink'', ''#FFB8EB'')],
       highlighterOrder = [''Pink'', ''Red''], useTogglingBehavior = False\<rparr> ''Red'')
      \<lparr>doc = ''x ab y'', anchor = 2, head = 4\<rparr>)
     = ''x <mark style="background: undefined;">ab</mark> y''\<close>
  by code_simp

end
